theory Spec2Isabelle
  imports Main "HOL-Library.Word" "HOL-Library.Log_Nat" "HOL-Library.Signed_Division"
begin

unbundle bit_operations_syntax

section \<open>Topic tickets of the discovery protocol (p2p/discover/ticket.go)\<close>

text \<open>
  The development embeds \<^verbatim>\<open>src/p2p/discover/ticket.go\<close>: ticket construction
  (\<^verbatim>\<open>pongToTicket\<close>, \<^verbatim>\<open>ticketToPong\<close>), the ticket store (\<^verbatim>\<open>add\<close>, \<^verbatim>\<open>fetch\<close>,
  \<^verbatim>\<open>adjustMinRadius\<close>, ...) and the per-topic radius controller (\<^verbatim>\<open>adjust\<close>).

  \<^item> \<^verbatim>\<open>uint64\<close> and \<^verbatim>\<open>uint32\<close> are machine words; \<open>+\<close>, \<open>-\<close>, \<open>*\<close> wrap as in Go.
  \<^item> \<^verbatim>\<open>int\<close> is a signed machine integer of 32 or 64 bits, as the platform has it:
    \<^verbatim>\<open>refCnt\<close> holds the signed value and \<^verbatim>\<open>++\<close> and \<^verbatim>\<open>--\<close> wrap at that size
    (\<open>int_wrap\<close>).
  \<^item> \<^verbatim>\<open>float64\<close> values are the finite binary64 numbers, represented by the rational
    they denote; every operation rounds its exact result to the nearest binary64 number,
    ties to even (\<open>f64_round\<close>).
  \<^item> \<^verbatim>\<open>*ticket\<close> pointers are addresses into an explicit heap of tickets, because a
    ticket is shared between the NodeID index and the time buckets and its
    \<^verbatim>\<open>refCnt\<close> is updated through the pointer.
  \<^item> A run-time panic (nil dereference, index out of range, \<^verbatim>\<open>rand.Int63n\<close> with a
    non-positive argument) is the \<open>Inl\<close> branch of a sum.
  \<^item> Random draws, the clock, the hash functions, the iteration order of a Go map and
    the result of an out-of-range float-to-integer conversion are inputs of the model.
\<close>

subsection \<open>binary64 arithmetic\<close>

type_synonym float64 = rat

definition pow2 :: "int \<Rightarrow> rat" where
  "pow2 e = (if 0 \<le> e then 2 ^ nat e else 1 / 2 ^ nat (- e))"

text \<open>\<open>ilog2 x\<close> is the binary exponent of a positive rational: \<open>2^e \<le> x < 2^(e+1)\<close>.\<close>

definition ilog2 :: "rat \<Rightarrow> int" where
  "ilog2 x = (if 1 \<le> x then bitlen \<lfloor>x\<rfloor> - 1 else - bitlen (\<lceil>1 / x\<rceil> - 1))"

text \<open>Round to the nearest integer, ties to the even one.\<close>

definition rne :: "rat \<Rightarrow> int" where
  "rne x = (let f = \<lfloor>x\<rfloor>; d = x - of_int f in
     if d < 1 / 2 then f else if 1 / 2 < d then f + 1 else if even f then f else f + 1)"

text \<open>
  Rounding of an exact result to binary64: 53 significant bits, smallest exponent
  \<open>-1022\<close> (below it the spacing stays \<open>2^-1074\<close>). No value computed by this program
  comes near \<open>2^1024\<close>, so infinities and NaN do not arise and are not represented.
  Each operation of the source is rounded by itself; a compiler that fuses a product
  and a sum into one rounding (Go allows it, and does it on some architectures, for
  \<^verbatim>\<open>x*y + z\<close>) may differ in the last bit in the two places where the source has that
  shape, the retention threshold of \<^verbatim>\<open>add\<close> and the update of \<^verbatim>\<open>filteredRadius\<close>.
\<close>

definition f64_round :: "rat \<Rightarrow> float64" where
  "f64_round x = (if x = 0 then 0 else
     (let e = max (ilog2 \<bar>x\<bar>) (- 1022); u = pow2 (e - 52) in of_int (rne (x / u)) * u))"

definition f64_add :: "float64 \<Rightarrow> float64 \<Rightarrow> float64" where
  "f64_add x y = f64_round (x + y)"

definition f64_sub :: "float64 \<Rightarrow> float64 \<Rightarrow> float64" where
  "f64_sub x y = f64_round (x - y)"

definition f64_mul :: "float64 \<Rightarrow> float64 \<Rightarrow> float64" where
  "f64_mul x y = f64_round (x * y)"

definition f64_div :: "float64 \<Rightarrow> float64 \<Rightarrow> float64" where
  "f64_div x y = f64_round (x / y)"

text \<open>A rational is a binary64 number when rounding leaves it as it is.\<close>

definition is_f64 :: "rat \<Rightarrow> bool" where
  "is_f64 x = (f64_round x = x)"

type_synonym byte = "8 word"
type_synonym uint32 = "32 word"
type_synonym uint64 = "64 word"

text \<open>\<^verbatim>\<open>float64(x)\<close> for a \<^verbatim>\<open>uint64\<close> \<open>x\<close>.\<close>

definition f64_of_u64 :: "uint64 \<Rightarrow> float64" where
  "f64_of_u64 w = f64_round (of_int (uint w))"

text \<open>
  \<^verbatim>\<open>uint64(x)\<close> for a \<^verbatim>\<open>float64\<close> \<open>x\<close> truncates towards zero. When the truncated value
  is not a \<^verbatim>\<open>uint64\<close> the Go specification leaves the result to the implementation;
  the model takes that result from its first argument.
\<close>

definition u64_of_f64 :: "(float64 \<Rightarrow> uint64) \<Rightarrow> float64 \<Rightarrow> uint64" where
  "u64_of_f64 oor x =
     (if 0 \<le> x \<and> x < 18446744073709551616 then word_of_int \<lfloor>x\<rfloor>
      else if - 1 < x \<and> x < 0 then 0
      else oor x)"

subsection \<open>Constants\<close>

definition Second :: uint64 where "Second = 1000000000"
definition Minute :: uint64 where "Minute = 60000000000"

definition ticketGroupTime :: uint64 where "ticketGroupTime = Minute"
definition timeWindow :: nat where "timeWindow = 30"
definition keepTicketConst :: uint64 where "keepTicketConst = Minute * 20"
definition keepTicketExp :: uint64 where "keepTicketExp = Minute * 20"
definition maxRadius :: uint64 where "maxRadius = 0xffffffffffffffff"
definition minRadAverage :: uint64 where "minRadAverage = 1024"
definition targetWaitTime :: uint64 where "targetWaitTime = Minute * 10"

subsection \<open>Data\<close>

type_synonym Topic = string
type_synonym NodeID = "byte list"    \<comment> \<open>\<^verbatim>\<open>[64]byte\<close>\<close>
type_synonym Hash = "byte list"      \<comment> \<open>\<^verbatim>\<open>[32]byte\<close>\<close>
type_synonym addr = nat              \<comment> \<open>the address of a ticket\<close>

datatype panic = NilDereference | IndexOutOfRange | Int63nInvalidArgument

text \<open>Of the registrar node only the identifier is read.\<close>

record Node =
  ID :: NodeID

text \<open>The fields of the decoded pong packet that the two conversions touch.\<close>

record pong =
  Expiration :: uint64
  TopicHash :: Hash
  TicketSerial :: uint32
  WaitPeriods :: "uint32 list"

record ingressPacket =
  data :: pong
  rawData :: "byte list"

record ticket =
  topics :: "Topic list"
  regTime :: "uint64 list"
  serial :: uint32
  issueTime :: uint64
  node :: Node
  refCnt :: int                  \<comment> \<open>\<^verbatim>\<open>int\<close>: kept within \<open>int_size\<close> bits by \<open>int_wrap\<close>\<close>
  pong :: "byte list"

text \<open>\<^verbatim>\<open>ticketRef{t, idx}\<close>: the ticket's address and the index of the topic slot.\<close>

record ticketRef =
  ref_t :: addr
  ref_idx :: nat

record topicTickets =
  topic :: Topic
  topicHashPrefix :: uint64
  radius :: uint64
  filteredRadius :: float64
  converged :: bool
  time :: "(uint64 \<rightharpoonup> ticketRef list) option"   \<comment> \<open>\<open>None\<close> is the nil map\<close>

record ticketStore =
  topics :: "Topic \<rightharpoonup> topicTickets"
  nodes :: "NodeID \<rightharpoonup> addr"
  lastGroupFetched :: uint64
  minRadSum :: float64
  minRadCnt :: uint64
  minRadius :: uint64

type_synonym heap = "addr \<Rightarrow> ticket"

text \<open>What the program takes from outside.\<close>

record env =
  Keccak256Hash :: "byte list \<Rightarrow> Hash"
  rlpHash :: "Topic list \<Rightarrow> Hash"
  uint64_out_of_range :: "float64 \<Rightarrow> uint64"
  int_size :: nat                \<comment> \<open>the size of \<^verbatim>\<open>int\<close> in bits, 32 or 64\<close>

text \<open>
  The result of an \<^verbatim>\<open>int\<close> operation whose exact value is \<open>x\<close>: the signed
  integer with the same low \<open>int_size\<close> bits (two's complement wrap-around).
\<close>

definition int_wrap :: "env \<Rightarrow> int \<Rightarrow> int" where
  "int_wrap E x = signed_take_bit (int_size E - 1) x"

subsection \<open>Ticket construction\<close>

text \<open>
  \<^verbatim>\<open>pongToTicket\<close>: the type assertion \<^verbatim>\<open>p.data.(*pong)\<close> is part of the input's type
  here. Fields the composite literal does not set are zero.
\<close>

definition pongToTicket :: "uint64 \<Rightarrow> Topic list \<Rightarrow> Node \<Rightarrow> ingressPacket \<Rightarrow> ticket" where
  "pongToTicket localTime tps n p =
     (let wps = WaitPeriods (data p) in
      \<lparr> ticket.topics = tps,
        regTime = map (\<lambda>wp. localTime + ucast wp * Second) wps,
        serial = 0,
        issueTime = localTime,
        node = n,
        refCnt = 0,
        pong = rawData p \<rparr>)"

text \<open>
  \<^verbatim>\<open>ticketToPong\<close>: \<^verbatim>\<open>time.Duration\<close> is \<^verbatim>\<open>int64\<close>, so the division by
  \<^verbatim>\<open>time.Second\<close> is signed and truncates towards zero; the conversion to
  \<^verbatim>\<open>uint32\<close> keeps the low 32 bits.
\<close>

definition Duration_div :: "uint64 \<Rightarrow> uint64 \<Rightarrow> uint64" where
  "Duration_div d u = word_of_int (sint d sdiv sint u)"

definition ticketToPong :: "env \<Rightarrow> ticket \<Rightarrow> pong \<Rightarrow> pong" where
  "ticketToPong E t pg =
     pg\<lparr> Expiration := Duration_div (issueTime t) Second,
         TopicHash := rlpHash E (ticket.topics t),
         TicketSerial := serial t,
         WaitPeriods := map (\<lambda>r. ucast (Duration_div r Second)) (regTime t) \<rparr>"

subsection \<open>The ticket store\<close>

definition newTicketStore :: ticketStore where
  "newTicketStore =
     \<lparr> topics = Map.empty, nodes = Map.empty, lastGroupFetched = 0,
       minRadSum = 0, minRadCnt = 0, minRadius = 0 \<rparr>"

text \<open>\<^verbatim>\<open>binary.BigEndian.Uint64(b[0:8])\<close> and \<^verbatim>\<open>binary.BigEndian.PutUint64\<close>.\<close>

definition BigEndian_Uint64 :: "byte list \<Rightarrow> uint64" where
  "BigEndian_Uint64 b = foldl (\<lambda>acc x. push_bit 8 acc OR ucast x) 0 (take 8 b)"

definition BigEndian_PutUint64 :: "uint64 \<Rightarrow> byte list" where
  "BigEndian_PutUint64 v = map (\<lambda>i. ucast (drop_bit (8 * (7 - i)) v)) [0..<8]"

definition bytes_of_string :: "string \<Rightarrow> byte list" where
  "bytes_of_string str = map (\<lambda>c. of_nat (of_char c)) str"

definition newtopicTickets :: "env \<Rightarrow> Topic \<Rightarrow> bool \<Rightarrow> topicTickets" where
  "newtopicTickets E t register =
     (let topicHash = Keccak256Hash E (bytes_of_string t);
          prefix = BigEndian_Uint64 topicHash
      in \<lparr> topic = t,
           topicHashPrefix = prefix,
           radius = maxRadius,
           filteredRadius = f64_of_u64 maxRadius,
           converged = False,
           time = (if register then Some Map.empty else None) \<rparr>)"

definition ticketStore_addTopic :: "env \<Rightarrow> Topic \<Rightarrow> bool \<Rightarrow> ticketStore \<Rightarrow> ticketStore" where
  "ticketStore_addTopic E t register s =
     (if topics s t = None then s\<lparr> topics := (topics s)(t \<mapsto> newtopicTickets E t register) \<rparr>
      else s)"

definition topicTickets_isInRadius :: "topicTickets \<Rightarrow> ticket \<Rightarrow> bool" where
  "topicTickets_isInRadius r t =
     (let nodePrefix = BigEndian_Uint64 (ID (node t));
          dist = nodePrefix XOR topicHashPrefix r
      in dist < radius r)"

text \<open>
  \<^verbatim>\<open>topicTickets.nextTarget\<close>: \<open>Int63n\<close> is the random source, \<open>Int63n n\<close> the value
  \<^verbatim>\<open>rand.Int63n(n)\<close> returns; the library function panics when \<open>n \<le> 0\<close>.
\<close>

definition topicTickets_nextTarget :: "(int \<Rightarrow> int) \<Rightarrow> topicTickets \<Rightarrow> panic + Hash" where
  "topicTickets_nextTarget Int63n r =
     (let n = sint (radius r div 2) in
      if n \<le> 0 then Inl Int63nInvalidArgument
      else
        (let rnd = (word_of_int (Int63n n) :: uint64) * 2;
             prefix = topicHashPrefix r XOR rnd
         in Inr (BigEndian_PutUint64 prefix @ replicate 24 0)))"

text \<open>\<^verbatim>\<open>ticketStore.nextTarget\<close>: \<^verbatim>\<open>s.topics[t]\<close> is nil for a topic that is not tracked.\<close>

definition ticketStore_nextTarget :: "(int \<Rightarrow> int) \<Rightarrow> Topic \<Rightarrow> ticketStore \<Rightarrow> panic + Hash" where
  "ticketStore_nextTarget Int63n t s =
     (case topics s t of
        None \<Rightarrow> Inl NilDereference
      | Some r \<Rightarrow> topicTickets_nextTarget Int63n r)"

definition bucket :: "topicTickets \<Rightarrow> uint64 \<Rightarrow> ticketRef list" where
  "bucket r g = (case time r of None \<Rightarrow> [] | Some m \<Rightarrow> (case m g of None \<Rightarrow> [] | Some l \<Rightarrow> l))"

text \<open>\<^verbatim>\<open>ticketsInWindow\<close>; \<open>now\<close> is the value of \<^verbatim>\<open>atime.NanoTime()\<close>.\<close>

definition ticketsInWindow :: "uint64 \<Rightarrow> Topic \<Rightarrow> ticketStore \<Rightarrow> panic + int" where
  "ticketsInWindow now t s =
     (let ltGroup = now div ticketGroupTime in
      case topics s t of
        None \<Rightarrow> Inl NilDereference
      | Some r \<Rightarrow> Inr (\<Sum>i \<leftarrow> [0..<timeWindow]. int (length (bucket r (ltGroup + of_nat i)))))"

definition getNodeTicket :: "NodeID \<Rightarrow> ticketStore \<Rightarrow> addr option" where
  "getNodeTicket nid s = nodes s nid"

subsection \<open>Radius adjustment\<close>

text \<open>
  \<^verbatim>\<open>topicTickets.adjust\<close>, in three parts. \<open>adjust_factor\<close> is the local variable
  \<^verbatim>\<open>adjust\<close> after clamping and scaling; \<open>proposed_radius\<close> is the local \<^verbatim>\<open>float64\<close>
  variable \<^verbatim>\<open>radius\<close> as first assigned. The constants \<^verbatim>\<open>0.01\<close>, \<^verbatim>\<open>0.1\<close>, \<^verbatim>\<open>0.05\<close>
  and \<^verbatim>\<open>float64(maxRadius)\<close> are rounded to binary64 as the compiler does.
\<close>

definition adjust_factor :: "bool \<Rightarrow> uint64 \<Rightarrow> float64" where
  "adjust_factor conv wait =
     (let adjust0 = f64_mul (f64_sub (f64_div (f64_of_u64 wait) (f64_of_u64 targetWaitTime)) 1) 2;
          adjust1 = (if 1 < adjust0 then 1 else adjust0);
          adjust2 = (if adjust1 < - 1 then - 1 else adjust1)
      in if conv then f64_mul adjust2 (f64_round (1 / 100))
         else f64_mul adjust2 (f64_round (1 / 10)))"

definition proposed_radius :: "topicTickets \<Rightarrow> uint64 \<Rightarrow> float64" where
  "proposed_radius r wait = f64_mul (f64_of_u64 (radius r)) (f64_add 1 (adjust_factor (converged r) wait))"

text \<open>
  \<open>radius_f1\<close> is the variable \<^verbatim>\<open>radius\<close> when the convergence test reads it: it is
  reassigned only in the branch that pins \<^verbatim>\<open>r.radius\<close> to \<^verbatim>\<open>maxRadius\<close>.
\<close>

definition topicTickets_adjust ::
  "env \<Rightarrow> heap \<Rightarrow> uint64 \<Rightarrow> ticketRef \<Rightarrow> uint64 \<Rightarrow> topicTickets \<Rightarrow> panic + topicTickets" where
  "topicTickets_adjust E h localTime t minRad r =
     (if ref_idx t < length (regTime (h (ref_t t))) then
        (let wait = regTime (h (ref_t t)) ! ref_idx t - localTime;
             radius_f = proposed_radius r wait;
             r1 = (if f64_of_u64 maxRadius < radius_f then r\<lparr> radius := maxRadius \<rparr>
                   else
                     (let rad = u64_of_f64 (uint64_out_of_range E) radius_f in
                      r\<lparr> radius := (if rad < minRad then minRad else rad) \<rparr>));
             radius_f1 = (if f64_of_u64 maxRadius < radius_f then f64_of_u64 (radius r1)
                          else radius_f)
         in Inr (if \<not> converged r1 then
                   (if filteredRadius r1 \<le> radius_f1 then r1\<lparr> converged := True \<rparr>
                    else r1\<lparr> filteredRadius :=
                            f64_add (filteredRadius r1)
                              (f64_mul (f64_sub radius_f1 (filteredRadius r1)) (f64_round (5 / 100))) \<rparr>)
                 else r1))
      else Inl IndexOutOfRange)"

subsection \<open>add\<close>

text \<open>
  The retention test of \<^verbatim>\<open>add\<close>: \<open>rnd\<close> is the value \<^verbatim>\<open>rand.ExpFloat64()\<close> returns,
  capped at 10, and the ticket is kept when
  \<^verbatim>\<open>float64(wait) < float64(keepTicketConst)+float64(keepTicketExp)*rnd\<close>
  (product and sum each rounded).
\<close>

definition keepTicket :: "float64 \<Rightarrow> uint64 \<Rightarrow> bool" where
  "keepTicket rnd wait =
     (let rnd1 = (if 10 < rnd then 10 else rnd)
      in f64_of_u64 wait
           < f64_add (f64_of_u64 keepTicketConst) (f64_mul (f64_of_u64 keepTicketExp) rnd1))"

text \<open>
  The body of the loop over the ticket's topics in \<^verbatim>\<open>ticketStore.add\<close>, for slot \<open>i\<close>.
  \<open>rnd\<close> is the random draw for this slot.
\<close>

definition add_slot ::
  "env \<Rightarrow> uint64 \<Rightarrow> addr \<Rightarrow> float64 \<Rightarrow> nat \<Rightarrow> ticketStore \<times> heap \<Rightarrow> panic + ticketStore \<times> heap" where
  "add_slot E localTime a rnd i sh =
     (case sh of (s, h) \<Rightarrow>
      (let tp = ticket.topics (h a) ! i in
       case topics s tp of
         None \<Rightarrow> Inr (s, h)
       | Some tt \<Rightarrow>
           if topicTickets_isInRadius tt (h a) then
             (case topicTickets_adjust E h localTime \<lparr> ref_t = a, ref_idx = i \<rparr> (minRadius s) tt of
                Inl e \<Rightarrow> Inl e
              | Inr tt1 \<Rightarrow>
                  if converged tt1 then
                    (let wait = regTime (h a) ! i - localTime
                     in case time tt1 of
                          None \<Rightarrow> Inr (s\<lparr> topics := (topics s)(tp \<mapsto> tt1) \<rparr>, h)
                        | Some m \<Rightarrow>
                            if keepTicket rnd wait
                            then
                              (let tgroup = regTime (h a) ! i div ticketGroupTime;
                                   l = (case m tgroup of None \<Rightarrow> [] | Some l \<Rightarrow> l);
                                   tt2 = tt1\<lparr> time := Some (m(tgroup \<mapsto> l @ [\<lparr> ref_t = a, ref_idx = i \<rparr>])) \<rparr>
                               in Inr (s\<lparr> topics := (topics s)(tp \<mapsto> tt2) \<rparr>,
                                       h(a := (h a)\<lparr> refCnt := int_wrap E (refCnt (h a) + 1) \<rparr>)))
                            else Inr (s\<lparr> topics := (topics s)(tp \<mapsto> tt1) \<rparr>, h))
                  else Inr (s\<lparr> topics := (topics s)(tp \<mapsto> tt1) \<rparr>, h))
           else Inr (s, h)))"

text \<open>A loop whose body may panic.\<close>

fun foldE :: "('a \<Rightarrow> 's \<Rightarrow> 'e + 's) \<Rightarrow> 'a list \<Rightarrow> 's \<Rightarrow> 'e + 's" where
  "foldE f [] s = Inr s"
| "foldE f (x # xs) s = (case f x s of Inl e \<Rightarrow> Inl e | Inr s1 \<Rightarrow> foldE f xs s1)"

text \<open>
  \<^verbatim>\<open>ticketStore.add(localTime, t)\<close>; \<open>a\<close> is the pointer \<open>t\<close> and \<open>rnd i\<close> the random
  draw of slot \<open>i\<close>.
\<close>

definition ticketStore_add ::
  "env \<Rightarrow> uint64 \<Rightarrow> addr \<Rightarrow> (nat \<Rightarrow> float64) \<Rightarrow> ticketStore \<times> heap \<Rightarrow> panic + ticketStore \<times> heap" where
  "ticketStore_add E localTime a rnd sh =
     (case sh of (s, h) \<Rightarrow>
      if nodes s (ID (node (h a))) \<noteq> None then Inr (s, h)
      else
        (let s1 = (if lastGroupFetched s = 0
                   then s\<lparr> lastGroupFetched := localTime div ticketGroupTime \<rparr> else s)
         in case foldE (\<lambda>i. add_slot E localTime a (rnd i) i)
                   [0..<length (ticket.topics (h a))] (s1, h) of
              Inl e \<Rightarrow> Inl e
            | Inr (s2, h2) \<Rightarrow>
                if 0 < refCnt (h2 a) then Inr (s2\<lparr> nodes := (nodes s2)(ID (node (h2 a)) \<mapsto> a) \<rparr>, h2)
                else Inr (s2, h2)))"

subsection \<open>fetch\<close>

text \<open>
  The scan of one bucket. \<open>arr\<close> is the backing array of the slice as the map entry
  sees it, \<open>n\<close> the length of the local variable \<^verbatim>\<open>list\<close> and \<open>i\<close> the loop index.
  \<^verbatim>\<open>list = append(list[:i], list[i+1:]...)\<close> has room in the array, so it moves the
  elements \<open>i+1 .. n-1\<close> one place down in \<open>arr\<close> and shortens only the local slice.
\<close>

function fetch_scan ::
  "env \<Rightarrow> uint64 \<Rightarrow> ticketRef list \<Rightarrow> nat \<Rightarrow> nat \<Rightarrow> addr list \<times> (NodeID \<rightharpoonup> addr) \<times> heap
     \<Rightarrow> panic + ticketRef list \<times> addr list \<times> (NodeID \<rightharpoonup> addr) \<times> heap" where
  "fetch_scan E localTime arr n i (res, nds, h) =
     (if i < n then
        (let t = arr ! i in
         if ref_idx t < length (regTime (h (ref_t t))) then
           (if regTime (h (ref_t t)) ! ref_idx t \<le> localTime then
              (let arr1 = take i arr @ drop (Suc i) (take n arr) @ drop (n - 1) arr;
                   h1 = h(ref_t t := (h (ref_t t))\<lparr> refCnt := int_wrap E (refCnt (h (ref_t t)) - 1) \<rparr>);
                   nds1 = (if refCnt (h1 (ref_t t)) = 0 then nds(ID (node (h1 (ref_t t))) := None)
                           else nds)
               in fetch_scan E localTime arr1 (n - 1) i (res @ [ref_t t], nds1, h1))
            else fetch_scan E localTime arr n (Suc i) (res, nds, h))
         else Inl IndexOutOfRange)
      else Inr (arr, res, nds, h))"
  by pat_completeness auto
termination
  by (relation "measure (\<lambda>(E, localTime, arr, n, i, x). n - i)") auto

text \<open>
  One round of the loop over \<open>g\<close> for the topic \<open>tp\<close>. The map entry
  \<^verbatim>\<open>tt.time[g]\<close> is never assigned in \<^verbatim>\<open>fetch\<close>: it keeps its length and shows the
  array as the scan left it, unless the bucket is deleted.
\<close>

definition fetch_group ::
  "env \<Rightarrow> uint64 \<Rightarrow> uint64 \<Rightarrow> Topic \<Rightarrow> uint64 \<Rightarrow> ticketStore \<times> heap \<times> addr list
     \<Rightarrow> panic + ticketStore \<times> heap \<times> addr list" where
  "fetch_group E localTime ltGroup tp g shr =
     (case shr of (s, h, res) \<Rightarrow>
      (case topics s tp of
         None \<Rightarrow> Inr (s, h, res)
       | Some tt \<Rightarrow>
           (let list = bucket tt g in
            case fetch_scan E localTime list (length list) 0 (res, nodes s, h) of
              Inl e \<Rightarrow> Inl e
            | Inr (arr, res1, nds1, h1) \<Rightarrow>
                (let tm = (case time tt of
                             None \<Rightarrow> None
                           | Some m \<Rightarrow>
                               Some (if g \<noteq> ltGroup then m(g := None)
                                     else (case m g of None \<Rightarrow> m | Some l \<Rightarrow> m(g \<mapsto> arr))))
                 in Inr (s\<lparr> topics := (topics s)(tp \<mapsto> tt\<lparr> time := tm \<rparr>), nodes := nds1 \<rparr>,
                         h1, res1)))))"

text \<open>The values of \<open>g\<close> in \<^verbatim>\<open>for g := s.lastGroupFetched; g <= ltGroup; g++\<close>.\<close>

definition groups :: "uint64 \<Rightarrow> uint64 \<Rightarrow> uint64 list" where
  "groups first ltGroup = map word_of_int [uint first..uint ltGroup]"

text \<open>
  \<^verbatim>\<open>ticketStore.fetch(localTime)\<close>. \<open>ord\<close> is the order in which
  \<^verbatim>\<open>range s.topics\<close> visits the topics in this call: a list of the keys of the map,
  each once, otherwise not determined by the language.
\<close>

definition ticketStore_fetch ::
  "env \<Rightarrow> uint64 \<Rightarrow> Topic list \<Rightarrow> ticketStore \<times> heap \<Rightarrow> panic + ticketStore \<times> heap \<times> addr list" where
  "ticketStore_fetch E localTime ord sh =
     (case sh of (s, h) \<Rightarrow>
      (let ltGroup = localTime div ticketGroupTime in
       case foldE (\<lambda>tp. foldE (fetch_group E localTime ltGroup tp) (groups (lastGroupFetched s) ltGroup))
              ord (s, h, []) of
         Inl e \<Rightarrow> Inl e
       | Inr (s1, h1, res) \<Rightarrow> Inr (s1\<lparr> lastGroupFetched := ltGroup \<rparr>, h1, res)))"

subsection \<open>The global minimum radius\<close>

text \<open>
  \<^verbatim>\<open>adjustMinRadius\<close>. \<^verbatim>\<open>maxRadius / 2\<close> is an integer constant expression,
  \<open>9223372036854775807\<close>, rounded to binary64 where it meets \<^verbatim>\<open>mrAdjust\<close>.
\<close>

definition adjustMinRadius :: "env \<Rightarrow> NodeID \<Rightarrow> NodeID \<Rightarrow> ticketStore \<Rightarrow> ticketStore" where
  "adjustMinRadius E target found s =
     (let tp = BigEndian_Uint64 target;
          fp = BigEndian_Uint64 found;
          dist = tp XOR fp;
          mrAdjust0 = f64_mul (f64_of_u64 dist) 16;
          mrAdjust = (if f64_round 9223372036854775807 < mrAdjust0 then f64_round 9223372036854775807
                      else mrAdjust0);
          cnt = (if minRadCnt s < minRadAverage then minRadCnt s + 1 else minRadCnt s);
          sum0 = (if minRadCnt s < minRadAverage then minRadSum s
                  else f64_sub (minRadSum s) (f64_div (minRadSum s) (f64_of_u64 minRadAverage)));
          sum1 = f64_add sum0 mrAdjust
      in s\<lparr> minRadSum := sum1, minRadCnt := cnt,
            minRadius := u64_of_f64 (uint64_out_of_range E) (f64_div sum1 (f64_of_u64 cnt)) \<rparr>)"

subsection \<open>Sequences of calls\<close>

datatype call =
    AddTopic Topic bool
  | Add uint64 addr "nat \<Rightarrow> float64"
  | Fetch uint64 "Topic list"
  | AdjustMinRadius NodeID NodeID

fun step :: "env \<Rightarrow> call \<Rightarrow> ticketStore \<times> heap \<Rightarrow> panic + ticketStore \<times> heap" where
  "step E (AddTopic t register) (s, h) = Inr (ticketStore_addTopic E t register s, h)"
| "step E (Add localTime a rnd) (s, h) = ticketStore_add E localTime a rnd (s, h)"
| "step E (Fetch localTime ord) (s, h) =
     (case ticketStore_fetch E localTime ord (s, h) of
        Inl e \<Rightarrow> Inl e
      | Inr (s1, h1, res) \<Rightarrow> Inr (s1, h1))"
| "step E (AdjustMinRadius target found) (s, h) = Inr (adjustMinRadius E target found s, h)"

definition run :: "env \<Rightarrow> call list \<Rightarrow> ticketStore \<times> heap \<Rightarrow> panic + ticketStore \<times> heap" where
  "run E cs sh = foldE (step E) cs sh"

text \<open>
  The calls \<^verbatim>\<open>adjustMinRadius(target, found)\<close> for the pairs of \<open>ps\<close>, in order.
\<close>

definition adjustMinRadius_calls :: "env \<Rightarrow> (NodeID \<times> NodeID) list \<Rightarrow> ticketStore \<Rightarrow> ticketStore" where
  "adjustMinRadius_calls E ps s = foldl (\<lambda>s p. adjustMinRadius E (fst p) (snd p) s) s ps"

text \<open>The tickets each \<^verbatim>\<open>fetch\<close> of a sequence of calls returns, in order.\<close>

fun fetch_trace :: "env \<Rightarrow> call list \<Rightarrow> ticketStore \<times> heap \<Rightarrow> panic + addr list list" where
  "fetch_trace E [] sh = Inr []"
| "fetch_trace E (Fetch localTime ord # cs) sh =
     (case ticketStore_fetch E localTime ord sh of
        Inl e \<Rightarrow> Inl e
      | Inr (s1, h1, res) \<Rightarrow>
          (case fetch_trace E cs (s1, h1) of Inl e \<Rightarrow> Inl e | Inr rs \<Rightarrow> Inr (res # rs)))"
| "fetch_trace E (c # cs) sh =
     (case step E c sh of Inl e \<Rightarrow> Inl e | Inr sh1 \<Rightarrow> fetch_trace E cs sh1)"

subsection \<open>Observations and invariants\<close>

text \<open>The entry \<^verbatim>\<open>s.topics[tp].time[g]\<close>, if the topic, its map and the key exist.\<close>

definition time_bucket :: "ticketStore \<Rightarrow> Topic \<Rightarrow> uint64 \<Rightarrow> ticketRef list option" where
  "time_bucket s tp g =
     (case topics s tp of
        None \<Rightarrow> None
      | Some r \<Rightarrow> (case time r of None \<Rightarrow> None | Some m \<Rightarrow> m g))"

text \<open>A reference names a slot its ticket has.\<close>

definition slot_ok :: "heap \<Rightarrow> ticketRef \<Rightarrow> bool" where
  "slot_ok h x = (ref_idx x < length (regTime (h (ref_t x))))"

text \<open>Two heaps whose tickets have the same topics and registration times.\<close>

definition same_slots :: "heap \<Rightarrow> heap \<Rightarrow> bool" where
  "same_slots h h' = (\<forall>a. regTime (h' a) = regTime (h a) \<and> ticket.topics (h' a) = ticket.topics (h a))"

text \<open>Every scheduled reference names a slot its ticket has.\<close>

definition refs_valid :: "ticketStore \<times> heap \<Rightarrow> bool" where
  "refs_valid sh =
     (\<forall>tp g l x. time_bucket (fst sh) tp g = Some l \<longrightarrow> x \<in> set l \<longrightarrow>
        ref_idx x < length (regTime (snd sh (ref_t x))))"

text \<open>Every ticket has a registration time for each of its topics.\<close>

definition wf_tickets :: "heap \<Rightarrow> bool" where
  "wf_tickets h = (\<forall>a. length (ticket.topics (h a)) \<le> length (regTime (h a)))"

text \<open>What every reachable store satisfies when the tickets are well formed.\<close>

definition store_ok :: "ticketStore \<times> heap \<Rightarrow> bool" where
  "store_ok sh = (refs_valid sh \<and> wf_tickets (snd sh))"

text \<open>
  What a run of the loop in \<^verbatim>\<open>add\<close> for the ticket at \<open>a\<close> may change besides the
  topics: nothing in the index, nothing of the other tickets, and of the ticket itself
  only \<^verbatim>\<open>refCnt\<close>.
\<close>

definition add_frame :: "addr \<Rightarrow> ticketStore \<times> heap \<Rightarrow> ticketStore \<times> heap \<Rightarrow> bool" where
  "add_frame a sh sh' =
     (nodes (fst sh') = nodes (fst sh) \<and> lastGroupFetched (fst sh') = lastGroupFetched (fst sh)
      \<and> minRadius (fst sh') = minRadius (fst sh)
      \<and> (\<forall>b. b \<noteq> a \<longrightarrow> snd sh' b = snd sh b)
      \<and> snd sh' a = (snd sh a)\<lparr> refCnt := refCnt (snd sh' a) \<rparr>)"

text \<open>Every topic that is converged before is tracked and converged after.\<close>

definition converged_kept :: "ticketStore \<times> heap \<Rightarrow> ticketStore \<times> heap \<Rightarrow> bool" where
  "converged_kept sh sh' =
     (\<forall>tp r. topics (fst sh) tp = Some r \<and> converged r \<longrightarrow>
        (\<exists>r'. topics (fst sh') tp = Some r' \<and> converged r'))"

definition converged_kept3 ::
  "ticketStore \<times> heap \<times> addr list \<Rightarrow> ticketStore \<times> heap \<times> addr list \<Rightarrow> bool" where
  "converged_kept3 x y = converged_kept (fst x, fst (snd x)) (fst y, fst (snd y))"

subsection \<open>The minimum-radius estimator as the specification describes it\<close>

text \<open>
  For comparison with \<^verbatim>\<open>adjustMinRadius\<close>. The sample of a call is the smaller of 16
  times the XOR of the two 64-bit prefixes and \<open>2^63\<close>. The estimator keeps a count
  and a sum: below 1024 samples the count goes up by one and the sample is added; at
  1024 the sum first loses 1/1024 of itself. The minimum radius is the average, sum by
  count, truncated to an integer. Sample, sum and average are binary64 numbers.
\<close>

definition spec_sample :: "NodeID \<Rightarrow> NodeID \<Rightarrow> float64" where
  "spec_sample target found =
     min (f64_mul (f64_of_u64 (BigEndian_Uint64 target XOR BigEndian_Uint64 found)) 16)
         9223372036854775808"

fun spec_step :: "nat \<times> float64 \<Rightarrow> float64 \<Rightarrow> nat \<times> float64" where
  "spec_step (cnt, acc) x =
     (if cnt < 1024 then (cnt + 1, f64_add acc x)
      else (cnt, f64_add (f64_sub acc (f64_div acc 1024)) x))"

definition spec_estimator :: "float64 list \<Rightarrow> nat \<times> float64" where
  "spec_estimator xs = foldl spec_step (0, 0) xs"

definition spec_minRadius :: "nat \<times> float64 \<Rightarrow> uint64" where
  "spec_minRadius e = word_of_int \<lfloor>f64_div (snd e) (of_nat (fst e))\<rfloor>"

subsection \<open>Example inputs\<close>

definition env0 :: env where
  "env0 = \<lparr> Keccak256Hash = (\<lambda>b. replicate 32 0),
           rlpHash = (\<lambda>ts. replicate 32 0),
           uint64_out_of_range = (\<lambda>x. 9223372036854775808),
           int_size = 64 \<rparr>"

text \<open>The same on a platform whose \<^verbatim>\<open>int\<close> has 32 bits.\<close>

definition env32 :: env where
  "env32 = env0\<lparr> int_size := 32 \<rparr>"

definition packet :: "uint32 list \<Rightarrow> ingressPacket" where
  "packet wps =
     \<lparr> data = \<lparr> Expiration = 0, TopicHash = replicate 32 0, TicketSerial = 0, WaitPeriods = wps \<rparr>,
       rawData = [] \<rparr>"

definition node0 :: Node where "node0 = \<lparr> ID = replicate 64 0 \<rparr>"
definition node1 :: Node where "node1 = \<lparr> ID = replicate 64 1 \<rparr>"

text \<open>
  A heap with a ticket for topic \<open>a\<close> usable after 15 minutes at address 1, a ticket
  without topics from another registrar at address 2, a ticket for topic \<open>a\<close> usable
  at once at address 3, and one usable after exactly 10 minutes elsewhere.
\<close>

definition heap0 :: heap where
  "heap0 = (\<lambda>a. pongToTicket 0 [''a''] node0 (packet [600]))
             (1 := pongToTicket 0 [''a''] node0 (packet [900]),
              2 := pongToTicket 1200000000000 [] node1 (packet []),
              3 := pongToTicket 0 [''a''] node0 (packet [0]))"

definition near_node :: NodeID where
  "near_node = [0, 32, 0, 0, 0, 0, 0, 1] @ replicate 56 0"

text \<open>
  A topic that is not converged, as 24 observations with wait 0 leave a new topic.
\<close>

definition slow_topic :: topicTickets where
  "slow_topic = \<lparr> topic = ''a'', topicHashPrefix = 0, radius = 1471431161109189376,
                  filteredRadius = 8909580883189761024, converged = False, time = None \<rparr>"

text \<open>
  The store after one \<^verbatim>\<open>add\<close> of the ticket at address 1 and the first \<^verbatim>\<open>fetch\<close> in the
  minute it is due: the ticket has left the index with \<^verbatim>\<open>refCnt\<close> 0, the bucket still
  holds its reference.
\<close>

definition stale_store :: "ticketStore \<times> heap \<Rightarrow> bool" where
  "stale_store sh =
     (case sh of (s, h) \<Rightarrow>
        (case topics s ''a'' of
           None \<Rightarrow> False
         | Some tt \<Rightarrow>
             (case time tt of
                None \<Rightarrow> False
              | Some m \<Rightarrow> m 15 = Some [\<lparr>ref_t = 1, ref_idx = 0\<rparr>]))
        \<and> lastGroupFetched s = 15 \<and> regTime (h 1) = [900000000000]
        \<and> nodes s (ID (node (h 1))) = None \<and> refCnt (h 1) = 0)"

section \<open>Properties\<close>

subsection \<open>binary64 rounding\<close>

lemma pow2_pos: "0 < pow2 e"
  by (simp add: pow2_def)

lemma pow2_powi: "pow2 e = 2 powi e"
  by (simp add: pow2_def power_int_def inverse_eq_divide power_one_over)

lemma pow2_add: "pow2 (a + b) = pow2 a * pow2 b"
  by (simp add: pow2_powi power_int_add)

lemma pow2_nat: "pow2 (int n) = 2 ^ n"
  by (simp add: pow2_def)

lemma pow2_mono: "a \<le> b \<Longrightarrow> pow2 a \<le> pow2 b"
  by (simp add: pow2_powi power_int_increasing)

lemma pow2_strict_mono: "a < b \<Longrightarrow> pow2 a < pow2 b"
  by (simp add: pow2_powi power_int_strict_increasing)

lemma pow2_le_imp_le: "pow2 a \<le> pow2 b \<Longrightarrow> a \<le> b"
  using pow2_strict_mono[of b a] by (cases "a \<le> b") auto

lemma ilog2_lower:
  assumes "0 < x"
  shows "pow2 (ilog2 x) \<le> x"
proof (cases "1 \<le> x")
  case True
  then have f: "0 < \<lfloor>x\<rfloor>" by simp
  then have "1 \<le> bitlen \<lfloor>x\<rfloor>"
    using bitlen_eq_zero_iff[of "\<lfloor>x\<rfloor>"] bitlen_nonneg[of "\<lfloor>x\<rfloor>"] by linarith
  moreover have "(2::int) ^ nat (bitlen \<lfloor>x\<rfloor> - 1) \<le> \<lfloor>x\<rfloor>" using bitlen_bounds[OF f] by simp
  then have "(of_int ((2::int) ^ nat (bitlen \<lfloor>x\<rfloor> - 1)) :: rat) \<le> of_int \<lfloor>x\<rfloor>"
    by (simp only: of_int_le_iff)
  ultimately have "pow2 (bitlen \<lfloor>x\<rfloor> - 1) \<le> of_int \<lfloor>x\<rfloor>" by (simp add: pow2_def)
  also have "\<dots> \<le> x" by (rule of_int_floor_le)
  finally show ?thesis using True by (simp add: ilog2_def)
next
  case False
  define m where "m = \<lceil>1 / x\<rceil> - 1"
  have "1 < 1 / x" using False assms by simp
  then have "1 < \<lceil>1 / x\<rceil>" by (simp add: less_ceiling_iff)
  then have m: "0 < m" by (simp add: m_def)
  have "m < 2 ^ nat (bitlen m)" using bitlen_bounds[OF m] by simp
  then have "\<lceil>1 / x\<rceil> \<le> 2 ^ nat (bitlen m)" by (simp add: m_def)
  then have "(of_int \<lceil>1 / x\<rceil> :: rat) \<le> of_int (2 ^ nat (bitlen m))"
    by (simp only: of_int_le_iff)
  then have "(of_int \<lceil>1 / x\<rceil> :: rat) \<le> 2 ^ nat (bitlen m)"
    by (simp only: of_int_power of_int_numeral)
  moreover have "1 / x \<le> of_int \<lceil>1 / x\<rceil>" by (rule le_of_int_ceiling)
  ultimately have "1 / x \<le> 2 ^ nat (bitlen m)" by (rule order_trans[rotated])
  then have "1 \<le> x * 2 ^ nat (bitlen m)" using assms by (simp add: pos_divide_le_eq mult.commute)
  then have "1 / 2 ^ nat (bitlen m) \<le> x" by (simp add: pos_divide_le_eq)
  moreover have "pow2 (- bitlen m) = 1 / 2 ^ nat (bitlen m)"
    using bitlen_nonneg[of m] by (cases "bitlen m = 0") (simp_all add: pow2_def)
  ultimately have "pow2 (- bitlen m) \<le> x" by (simp only:)
  then show ?thesis using False by (simp add: ilog2_def m_def)
qed

lemma rne_of_int: "rne (of_int k) = k"
  by (simp add: rne_def)

lemma rne_ge: "of_int k \<le> x \<Longrightarrow> k \<le> rne x"
proof -
  assume "of_int k \<le> x"
  then have "k \<le> \<lfloor>x\<rfloor>" by (simp add: le_floor_iff)
  then show ?thesis by (auto simp: rne_def Let_def)
qed

lemma rne_le: "x \<le> of_int k \<Longrightarrow> rne x \<le> k"
proof -
  assume a: "x \<le> of_int k"
  show ?thesis
  proof (cases "x = of_int \<lfloor>x\<rfloor>")
    case True
    then have "rne x = \<lfloor>x\<rfloor>" by (simp add: rne_def)
    moreover have "\<lfloor>x\<rfloor> \<le> k" using a by (simp add: floor_le_iff) 
    ultimately show ?thesis by simp
  next
    case False
    then have "of_int \<lfloor>x\<rfloor> < x" using of_int_floor_le[of x] by linarith
    then have "of_int \<lfloor>x\<rfloor> < (of_int k :: rat)" using a by linarith
    then have "\<lfloor>x\<rfloor> < k" by (simp only: of_int_less_iff)
    moreover have "rne x \<le> \<lfloor>x\<rfloor> + 1" by (simp add: rne_def Let_def)
    ultimately show ?thesis by linarith
  qed
qed


lemma pow2_diff_int:
  assumes "b \<le> a"
  shows "pow2 a / pow2 b = of_int (2 ^ nat (a - b))"
proof -
  have "pow2 a = pow2 (a - b) * pow2 b" by (simp add: pow2_add[symmetric])
  moreover have "pow2 (a - b) = 2 ^ nat (a - b)" using assms by (simp add: pow2_def)
  ultimately show ?thesis using pow2_pos[of b] by simp
qed

lemma f64_round_unfold:
  assumes "x \<noteq> 0"
  shows "f64_round x = of_int (rne (x / pow2 (max (ilog2 \<bar>x\<bar>) (- 1022) - 52)))
                        * pow2 (max (ilog2 \<bar>x\<bar>) (- 1022) - 52)"
  using assms by (simp add: f64_round_def Let_def)

lemma f64_round_grid:
  assumes x: "x = of_int m * pow2 j" and e: "max (ilog2 \<bar>x\<bar>) (- 1022) - 52 \<le> j"
  shows "f64_round x = x"
proof (cases "x = 0")
  case True
  then show ?thesis by (simp add: f64_round_def)
next
  case False
  define u where "u = pow2 (max (ilog2 \<bar>x\<bar>) (- 1022) - 52)"
  have u: "0 < u" by (simp add: u_def pow2_pos)
  have "pow2 j / u = of_int (2 ^ nat (j - (max (ilog2 \<bar>x\<bar>) (- 1022) - 52)))"
    unfolding u_def using e by (rule pow2_diff_int)
  moreover have "x / u = of_int m * (pow2 j / u)" by (simp add: x)
  ultimately have "x / u = of_int (m * 2 ^ nat (j - (max (ilog2 \<bar>x\<bar>) (- 1022) - 52)))"
    by (simp only: of_int_mult)
  then have "of_int (rne (x / u)) = x / u" by (simp only: rne_of_int)
  then have "of_int (rne (x / u)) * u = x" using u by simp
  then show ?thesis using False by (simp add: f64_round_unfold u_def)
qed

lemma ilog2_le:
  assumes "0 < x" and "x \<le> pow2 k"
  shows "ilog2 x \<le> k"
proof -
  have "pow2 (ilog2 x) \<le> pow2 k" using ilog2_lower[OF assms(1)] assms(2) by linarith
  then show ?thesis by (rule pow2_le_imp_le)
qed

lemma div_eq_imp_eq_mult: "0 < (u::rat) \<Longrightarrow> a / u = b \<Longrightarrow> b * u = a"
  by (auto simp: field_simps)

lemma of_int_le_pow2_53: "n \<le> 2 ^ 53 \<Longrightarrow> (of_int n :: rat) \<le> pow2 53"
proof -
  assume "n \<le> 2 ^ 53"
  then have "(of_int n :: rat) \<le> of_int (2 ^ 53)" by (simp only: of_int_le_iff)
  moreover have "pow2 53 = of_int (2 ^ 53)" by (simp add: pow2_def)
  ultimately show ?thesis by simp
qed

text \<open>Rounding does not cross an integer of at most 53 bits.\<close>

lemma f64_round_ge_int:
  assumes n: "0 \<le> n" "n \<le> 2 ^ 53" and x: "of_int n \<le> x"
  shows "of_int n \<le> f64_round x"
proof (cases "x = 0")
  case True
  then show ?thesis using x by (simp add: f64_round_def)
next
  case False
  have "(0::rat) \<le> of_int n" using n(1) by simp
  then have xpos: "0 < x" using x False by linarith
  define e where "e = max (ilog2 \<bar>x\<bar>) (- 1022)"
  define u where "u = pow2 (e - 52)"
  have u: "0 < u" by (simp add: u_def pow2_pos)
  have fr: "f64_round x = of_int (rne (x / u)) * u"
    using False by (simp add: f64_round_unfold u_def e_def)
  show ?thesis
  proof (cases "e \<le> 52")
    case True
    have "pow2 0 / u = of_int (2 ^ nat (0 - (e - 52)))"
      unfolding u_def using True by (intro pow2_diff_int) simp
    then have "1 / u = of_int (2 ^ nat (52 - e))" by (simp add: pow2_def)
    moreover have "of_int n / u = of_int n * (1 / u)" by simp
    ultimately have k: "of_int n / u = of_int (n * 2 ^ nat (52 - e))" by (simp only: of_int_mult)
    have "of_int n / u \<le> x / u" using x u by (simp add: divide_right_mono)
    then have "of_int (n * 2 ^ nat (52 - e)) \<le> x / u" by (simp only: k)
    then have "n * 2 ^ nat (52 - e) \<le> rne (x / u)" by (rule rne_ge)
    then have "(of_int (n * 2 ^ nat (52 - e)) :: rat) \<le> of_int (rne (x / u))"
      by (simp only: of_int_le_iff)
    then have "of_int (n * 2 ^ nat (52 - e)) * u \<le> of_int (rne (x / u)) * u"
      using u by (simp only: mult_le_cancel_right_pos)
    moreover have "of_int (n * 2 ^ nat (52 - e)) * u = of_int n"
      using u k by (rule div_eq_imp_eq_mult)
    ultimately have "of_int n \<le> of_int (rne (x / u)) * u" by (simp only:)
    then show ?thesis by (simp only: fr)
  next
    case False
    then have e53: "53 \<le> e" by simp
    then have ee: "e = ilog2 x" using xpos by (simp add: e_def max_def split: if_splits)
    have "pow2 e \<le> x" unfolding ee using xpos by (rule ilog2_lower)
    then have "pow2 e / u \<le> x / u" using u by (simp add: divide_right_mono)
    moreover have k: "pow2 e / u = of_int (2 ^ nat (e - (e - 52)))"
      unfolding u_def by (intro pow2_diff_int) simp
    ultimately have "of_int (2 ^ nat (e - (e - 52))) \<le> x / u" by (simp only:)
    then have "2 ^ nat (e - (e - 52)) \<le> rne (x / u)" by (rule rne_ge)
    then have "(of_int (2 ^ nat (e - (e - 52))) :: rat) \<le> of_int (rne (x / u))"
      by (simp only: of_int_le_iff)
    then have "of_int (2 ^ nat (e - (e - 52))) * u \<le> of_int (rne (x / u)) * u"
      using u by (simp only: mult_le_cancel_right_pos)
    moreover have "of_int (2 ^ nat (e - (e - 52))) * u = pow2 e"
      using u k by (rule div_eq_imp_eq_mult)
    moreover have "pow2 53 \<le> pow2 e" using e53 by (rule pow2_mono)
    moreover have "(of_int n :: rat) \<le> pow2 53" using n(2) by (rule of_int_le_pow2_53)
    ultimately have "of_int n \<le> of_int (rne (x / u)) * u" by linarith
    then show ?thesis by (simp only: fr)
  qed
qed

lemma rne_nonpos: "x \<le> 0 \<Longrightarrow> rne x \<le> 0"
  using rne_le[of x 0] by simp

lemma f64_round_le_int:
  assumes n: "0 \<le> n" "n \<le> 2 ^ 53" and x: "x \<le> of_int n"
  shows "f64_round x \<le> of_int n"
proof (cases "x \<le> 0")
  case True
  have n0: "(0::rat) \<le> of_int n" using n(1) by simp
  show ?thesis
  proof (cases "x = 0")
    case True
    then show ?thesis using n0 by (simp add: f64_round_def)
  next
    case False
    define u where "u = pow2 (max (ilog2 \<bar>x\<bar>) (- 1022) - 52)"
    have u: "0 < u" by (simp add: u_def pow2_pos)
    have "x / u \<le> 0" using True u by (simp add: divide_le_0_iff)
    then have "rne (x / u) \<le> 0" by (rule rne_nonpos)
    then have "(of_int (rne (x / u)) :: rat) \<le> 0" by simp
    then have "of_int (rne (x / u)) * u \<le> 0" using u by (simp add: mult_le_0_iff)
    then show ?thesis using False n0 by (simp add: f64_round_unfold u_def)
  qed
next
  case False
  then have xpos: "0 < x" by simp
  then have xn0: "x \<noteq> 0" by simp
  define e where "e = max (ilog2 \<bar>x\<bar>) (- 1022)"
  define u where "u = pow2 (e - 52)"
  have u: "0 < u" by (simp add: u_def pow2_pos)
  have fr: "f64_round x = of_int (rne (x / u)) * u"
    using xn0 by (simp add: f64_round_unfold u_def e_def)
  have n53: "(of_int n :: rat) \<le> pow2 53" using n(2) by (rule of_int_le_pow2_53)
  have "ilog2 x \<le> 53" using xpos x n53 by (intro ilog2_le) auto
  then have e53: "e \<le> 53" using xpos by (simp add: e_def)
  show ?thesis
  proof (cases "e \<le> 52")
    case True
    have "pow2 0 / u = of_int (2 ^ nat (0 - (e - 52)))"
      unfolding u_def using True by (intro pow2_diff_int) simp
    then have "1 / u = of_int (2 ^ nat (52 - e))" by (simp add: pow2_def)
    moreover have "of_int n / u = of_int n * (1 / u)" by simp
    ultimately have k: "of_int n / u = of_int (n * 2 ^ nat (52 - e))" by (simp only: of_int_mult)
    have "x / u \<le> of_int n / u" using x u by (simp add: divide_right_mono)
    then have "x / u \<le> of_int (n * 2 ^ nat (52 - e))" by (simp only: k)
    then have "rne (x / u) \<le> n * 2 ^ nat (52 - e)" by (rule rne_le)
    then have "(of_int (rne (x / u)) :: rat) \<le> of_int (n * 2 ^ nat (52 - e))"
      by (simp only: of_int_le_iff)
    then have "of_int (rne (x / u)) * u \<le> of_int (n * 2 ^ nat (52 - e)) * u"
      using u by (simp only: mult_le_cancel_right_pos)
    moreover have "of_int (n * 2 ^ nat (52 - e)) * u = of_int n"
      using u k by (rule div_eq_imp_eq_mult)
    ultimately have "of_int (rne (x / u)) * u \<le> of_int n" by (simp only:)
    then show ?thesis by (simp only: fr)
  next
    case False
    then have e: "e = 53" using e53 by simp
    then have ee: "ilog2 x = 53" using xpos by (simp add: e_def max_def split: if_splits)
    have "pow2 53 \<le> x" using ilog2_lower[OF xpos] by (simp only: ee)
    then have xe: "x = pow2 53" using x n53 by linarith
    have "x / u = of_int (2 ^ 52)" by (simp add: xe u_def e pow2_def)
    then have "of_int (rne (x / u)) = x / u" by (simp only: rne_of_int)
    then have "of_int (rne (x / u)) * u = x" using u by simp
    then show ?thesis using x by (simp only: fr)
  qed
qed


text \<open>Integers of at most 53 bits, scaled by a power of two, are binary64 numbers.\<close>

lemma f64_round_scaled_int:
  assumes m: "0 \<le> m" "m \<le> 2 ^ 53"
  shows "f64_round (of_int m * 2 ^ j) = of_int m * 2 ^ j"
proof (cases "m = 0")
  case True
  then show ?thesis by (simp add: f64_round_def)
next
  case False
  define x :: rat where "x = of_int m * 2 ^ j"
  have mpos: "(0::rat) < of_int m" using m(1) False by simp
  have xpos: "0 < x" using mpos by (simp add: x_def)
  have xa: "\<bar>x\<bar> = x" using xpos by simp
  have x1: "x = of_int m * pow2 (int j)" by (simp add: x_def pow2_nat)
  have "(of_int m :: rat) \<le> pow2 53" using m(2) by (rule of_int_le_pow2_53)
  then have "x \<le> pow2 53 * pow2 (int j)" unfolding x1 using pow2_pos[of "int j"] by simp
  then have xle: "x \<le> pow2 (53 + int j)" by (simp add: pow2_add)
  then have le: "ilog2 x \<le> 53 + int j" using xpos by (intro ilog2_le)
  show ?thesis
  proof (cases "ilog2 x \<le> 52 + int j")
    case True
    then have "max (ilog2 \<bar>x\<bar>) (- 1022) - 52 \<le> int j" by (simp add: xa)
    with x1 have "f64_round x = x" by (rule f64_round_grid)
    then show ?thesis by (simp add: x_def)
  next
    case False
    then have e: "ilog2 x = 53 + int j" using le by simp
    have "pow2 (53 + int j) \<le> x" using ilog2_lower[OF xpos] by (simp only: e)
    then have "x = of_int 1 * pow2 (53 + int j)" using xle by simp
    moreover have "max (ilog2 \<bar>x\<bar>) (- 1022) - 52 \<le> 53 + int j" by (simp add: xa e)
    ultimately have "f64_round x = x" by (rule f64_round_grid)
    then show ?thesis by (simp add: x_def)
  qed
qed

lemma f64_round_small_int:
  assumes "0 \<le> m" "m \<le> 2 ^ 53"
  shows "f64_round (of_int m) = of_int m"
  using f64_round_scaled_int[OF assms, of 0] by simp

lemma of_int_scaled_le_pow2:
  assumes "m \<le> 2 ^ 53"
  shows "(of_int m :: rat) * 2 ^ j \<le> pow2 (53 + int j)"
proof -
  have "(of_int m :: rat) \<le> pow2 53" using assms by (rule of_int_le_pow2_53)
  then have "(of_int m :: rat) * 2 ^ j \<le> pow2 53 * 2 ^ j" by (rule mult_right_mono) simp
  then show ?thesis by (simp add: pow2_add pow2_nat)
qed

lemma scaled_int_div_unit:
  assumes "e - 52 \<le> int j"
  shows "(of_int m :: rat) * 2 ^ j / pow2 (e - 52) = of_int (m * 2 ^ nat (int j - (e - 52)))"
proof -
  have "pow2 (int j) / pow2 (e - 52) = of_int (2 ^ nat (int j - (e - 52)))"
    using assms by (rule pow2_diff_int)
  then have "(2::rat) ^ j / pow2 (e - 52) = of_int (2 ^ nat (int j - (e - 52)))"
    by (simp only: pow2_nat)
  moreover have "(of_int m :: rat) * 2 ^ j / pow2 (e - 52) = of_int m * (2 ^ j / pow2 (e - 52))" by simp
  ultimately show ?thesis by (simp only: of_int_mult)
qed

text \<open>Rounding does not cross a binary64 number \<open>m * 2^j\<close>, \<open>0 \<le> m \<le> 2^53\<close>.\<close>

lemma f64_round_ge_scaled:
  assumes m: "0 \<le> m" "m \<le> 2 ^ 53" and x: "of_int m * 2 ^ j \<le> x"
  shows "of_int m * 2 ^ j \<le> f64_round x"
proof (cases "x = 0")
  case True
  then show ?thesis using x by (simp add: f64_round_def)
next
  case False
  define c :: rat where "c = of_int m * 2 ^ j"
  have "(0::rat) \<le> of_int m" using m(1) by simp
  then have c0: "0 \<le> c" unfolding c_def by (rule mult_nonneg_nonneg) simp
  have cx: "c \<le> x" using x by (simp only: c_def)
  have xpos: "0 < x" using cx c0 False by linarith
  define e where "e = max (ilog2 \<bar>x\<bar>) (- 1022)"
  define u where "u = pow2 (e - 52)"
  have u: "0 < u" by (simp add: u_def pow2_pos)
  have fr: "f64_round x = of_int (rne (x / u)) * u"
    using False by (simp add: f64_round_unfold u_def e_def)
  have "c \<le> of_int (rne (x / u)) * u"
  proof (cases "e - 52 \<le> int j")
    case True
    define K where "K = m * 2 ^ nat (int j - (e - 52))"
    have k: "c / u = of_int K" unfolding c_def u_def K_def using True by (rule scaled_int_div_unit)
    have "c / u \<le> x / u" using cx u by (simp add: divide_right_mono)
    then have "of_int K \<le> x / u" by (simp only: k)
    then have "K \<le> rne (x / u)" by (rule rne_ge)
    then have "(of_int K :: rat) \<le> of_int (rne (x / u))" by (simp only: of_int_le_iff)
    then have "of_int K * u \<le> of_int (rne (x / u)) * u"
      using u by (simp only: mult_le_cancel_right_pos)
    moreover have "of_int K * u = c" using u k by (rule div_eq_imp_eq_mult)
    ultimately show ?thesis by (simp only:)
  next
    case False
    then have e53: "53 + int j \<le> e" by simp
    then have ee: "e = ilog2 x" using xpos by (simp add: e_def max_def split: if_splits)
    have "pow2 e \<le> x" unfolding ee using xpos by (rule ilog2_lower)
    then have "pow2 e / u \<le> x / u" using u by (simp add: divide_right_mono)
    moreover have k: "pow2 e / u = of_int (2 ^ nat (e - (e - 52)))"
      unfolding u_def by (intro pow2_diff_int) simp
    ultimately have "of_int (2 ^ nat (e - (e - 52))) \<le> x / u" by (simp only:)
    then have "2 ^ nat (e - (e - 52)) \<le> rne (x / u)" by (rule rne_ge)
    then have "(of_int (2 ^ nat (e - (e - 52))) :: rat) \<le> of_int (rne (x / u))"
      by (simp only: of_int_le_iff)
    then have "of_int (2 ^ nat (e - (e - 52))) * u \<le> of_int (rne (x / u)) * u"
      using u by (simp only: mult_le_cancel_right_pos)
    moreover have "of_int (2 ^ nat (e - (e - 52))) * u = pow2 e"
      using u k by (rule div_eq_imp_eq_mult)
    moreover have "pow2 (53 + int j) \<le> pow2 e" using e53 by (rule pow2_mono)
    moreover have "c \<le> pow2 (53 + int j)" unfolding c_def using m(2) by (rule of_int_scaled_le_pow2)
    ultimately show ?thesis by linarith
  qed
  then show ?thesis by (simp only: fr c_def)
qed

lemma f64_round_le_scaled:
  assumes m: "0 \<le> m" "m \<le> 2 ^ 53" and x: "x \<le> of_int m * 2 ^ j"
  shows "f64_round x \<le> of_int m * 2 ^ j"
proof -
  define c :: rat where "c = of_int m * 2 ^ j"
  have "(0::rat) \<le> of_int m" using m(1) by simp
  then have c0: "0 \<le> c" unfolding c_def by (rule mult_nonneg_nonneg) simp
  have xc: "x \<le> c" using x by (simp only: c_def)
  have c53: "c \<le> pow2 (53 + int j)" unfolding c_def using m(2) by (rule of_int_scaled_le_pow2)
  have "f64_round x \<le> c"
  proof (cases "x \<le> 0")
    case True
    show ?thesis
    proof (cases "x = 0")
      case True
      then show ?thesis using c0 by (simp add: f64_round_def)
    next
      case False
      define u where "u = pow2 (max (ilog2 \<bar>x\<bar>) (- 1022) - 52)"
      have u: "0 < u" by (simp add: u_def pow2_pos)
      have "x / u \<le> 0" using True u by (simp add: divide_le_0_iff)
      then have "rne (x / u) \<le> 0" by (rule rne_nonpos)
      then have "(of_int (rne (x / u)) :: rat) \<le> 0" by simp
      then have "of_int (rne (x / u)) * u \<le> 0" using u by (simp add: mult_le_0_iff)
      then show ?thesis using False c0 by (simp add: f64_round_unfold u_def)
    qed
  next
    case False
    then have xpos: "0 < x" by simp
    then have xn0: "x \<noteq> 0" by simp
    define e where "e = max (ilog2 \<bar>x\<bar>) (- 1022)"
    define u where "u = pow2 (e - 52)"
    have u: "0 < u" by (simp add: u_def pow2_pos)
    have fr: "f64_round x = of_int (rne (x / u)) * u"
      using xn0 by (simp add: f64_round_unfold u_def e_def)
    have "x \<le> pow2 (53 + int j)" using xc c53 by (rule order_trans)
    with xpos have "ilog2 x \<le> 53 + int j" by (rule ilog2_le)
    then have e53: "e \<le> 53 + int j" using xpos by (simp add: e_def)
    show ?thesis
    proof (cases "e - 52 \<le> int j")
      case True
      define K where "K = m * 2 ^ nat (int j - (e - 52))"
      have k: "c / u = of_int K" unfolding c_def u_def K_def using True by (rule scaled_int_div_unit)
      have "x / u \<le> c / u" using xc u by (simp add: divide_right_mono)
      then have "x / u \<le> of_int K" by (simp only: k)
      then have "rne (x / u) \<le> K" by (rule rne_le)
      then have "(of_int (rne (x / u)) :: rat) \<le> of_int K" by (simp only: of_int_le_iff)
      then have "of_int (rne (x / u)) * u \<le> of_int K * u"
        using u by (simp only: mult_le_cancel_right_pos)
      moreover have "of_int K * u = c" using u k by (rule div_eq_imp_eq_mult)
      ultimately have "of_int (rne (x / u)) * u \<le> c" by (simp only:)
      then show ?thesis by (simp only: fr)
    next
      case False
      then have e: "e = 53 + int j" using e53 by simp
      then have ee: "ilog2 x = 53 + int j" using xpos by (simp add: e_def max_def split: if_splits)
      have "pow2 (53 + int j) \<le> x" using ilog2_lower[OF xpos] by (simp only: ee)
      then have xe: "x = pow2 (53 + int j)" using xc c53 by linarith
      have "pow2 (53 + int j) / pow2 (53 + int j - 52) = of_int (2 ^ nat (53 + int j - (53 + int j - 52)))"
        by (intro pow2_diff_int) simp
      then have "x / u = of_int (2 ^ nat (53 + int j - (53 + int j - 52)))"
        by (simp only: xe u_def e)
      then have "of_int (rne (x / u)) = x / u" by (simp only: rne_of_int)
      then have "of_int (rne (x / u)) * u = x" using u by simp
      then show ?thesis using xc by (simp only: fr)
    qed
  qed
  then show ?thesis by (simp only: c_def)
qed

lemma rne_le_twice:
  assumes "0 \<le> z"
  shows "of_int (rne z) \<le> 2 * z"
proof -
  have f0: "0 \<le> \<lfloor>z\<rfloor>" using assms by simp
  have fz: "of_int \<lfloor>z\<rfloor> \<le> z" by simp
  have f0r: "(0::rat) \<le> of_int \<lfloor>z\<rfloor>" using f0 by simp
  show ?thesis
  proof (cases "z - of_int \<lfloor>z\<rfloor> < 1 / 2")
    case True
    then have "rne z = \<lfloor>z\<rfloor>" by (simp add: rne_def Let_def)
    then have "(of_int (rne z) :: rat) = of_int \<lfloor>z\<rfloor>" by (simp only:)
    then show ?thesis using fz assms by linarith
  next
    case False
    then have "rne z \<le> \<lfloor>z\<rfloor> + 1" by (simp add: rne_def Let_def)
    then have "(of_int (rne z) :: rat) \<le> of_int (\<lfloor>z\<rfloor> + 1)" by (simp only: of_int_le_iff)
    then have "(of_int (rne z) :: rat) \<le> of_int \<lfloor>z\<rfloor> + 1" by simp
    moreover have "of_int \<lfloor>z\<rfloor> + 1 / 2 \<le> z" using False by simp
    ultimately show ?thesis using f0r by linarith
  qed
qed

lemma f64_round_le_twice:
  assumes "0 \<le> y"
  shows "f64_round y \<le> 2 * y"
proof (cases "y = 0")
  case True
  then show ?thesis by (simp add: f64_round_def)
next
  case False
  define u where "u = pow2 (max (ilog2 \<bar>y\<bar>) (- 1022) - 52)"
  have u: "0 < u" by (simp add: u_def pow2_pos)
  have "0 \<le> y / u" using assms u by simp
  then have "of_int (rne (y / u)) \<le> 2 * (y / u)" by (rule rne_le_twice)
  then have "of_int (rne (y / u)) * u \<le> 2 * (y / u) * u"
    using u by (simp only: mult_le_cancel_right_pos)
  moreover have "2 * (y / u) * u = 2 * y" using u by simp
  ultimately show ?thesis using False by (simp add: f64_round_unfold u_def)
qed

lemma f64_round_nonneg: "0 \<le> x \<Longrightarrow> 0 \<le> f64_round x"
  using f64_round_ge_scaled[of 0 0 x] by simp

text \<open>The binary exponent is exact, and scaling by a power of two shifts it.\<close>

lemma ilog2_upper:
  assumes "0 < x"
  shows "x < pow2 (ilog2 x + 1)"
proof (cases "1 \<le> x")
  case True
  then have f: "0 < \<lfloor>x\<rfloor>" by simp
  have "\<lfloor>x\<rfloor> < 2 ^ nat (bitlen \<lfloor>x\<rfloor>)" using bitlen_bounds[OF f] by simp
  then have "\<lfloor>x\<rfloor> + 1 \<le> 2 ^ nat (bitlen \<lfloor>x\<rfloor>)" by simp
  then have "(of_int (\<lfloor>x\<rfloor> + 1) :: rat) \<le> of_int (2 ^ nat (bitlen \<lfloor>x\<rfloor>))" by (simp only: of_int_le_iff)
  moreover have "x < of_int (\<lfloor>x\<rfloor> + 1)" by linarith
  ultimately have "x < of_int (2 ^ nat (bitlen \<lfloor>x\<rfloor>))" by linarith
  moreover have "0 \<le> bitlen \<lfloor>x\<rfloor>" by (rule bitlen_nonneg)
  ultimately show ?thesis using True by (simp add: ilog2_def pow2_def)
next
  case False
  define m where "m = \<lceil>1 / x\<rceil> - 1"
  have "1 < 1 / x" using False assms by simp
  then have "1 < \<lceil>1 / x\<rceil>" by (simp add: less_ceiling_iff)
  then have m: "0 < m" by (simp add: m_def)
  then have b1: "1 \<le> bitlen m"
    using bitlen_eq_zero_iff[of m] bitlen_nonneg[of m] by linarith
  have "2 ^ nat (bitlen m - 1) \<le> m" using bitlen_bounds[OF m] by simp
  then have "(of_int (2 ^ nat (bitlen m - 1)) :: rat) \<le> of_int m" by (simp only: of_int_le_iff)
  then have "(2 :: rat) ^ nat (bitlen m - 1) \<le> of_int m" by (simp only: of_int_power of_int_numeral)
  moreover have "of_int m < 1 / x" unfolding m_def by linarith
  ultimately have "(2 :: rat) ^ nat (bitlen m - 1) < 1 / x" by (rule le_less_trans)
  then have "x * 2 ^ nat (bitlen m - 1) < 1" using assms by (simp add: field_simps)
  then have "x < 1 / 2 ^ nat (bitlen m - 1)" by (simp add: field_simps)
  moreover have "pow2 (- bitlen m + 1) = 1 / 2 ^ nat (bitlen m - 1)"
  proof (cases "bitlen m = 1")
    case True
    then show ?thesis by (simp add: pow2_def)
  next
    case False
    then have "\<not> 0 \<le> - bitlen m + 1" using b1 by simp
    moreover have "nat (- (- bitlen m + 1)) = nat (bitlen m - 1)" by simp
    ultimately show ?thesis by (simp only: pow2_def if_False)
  qed
  ultimately show ?thesis using False by (simp add: ilog2_def m_def)
qed

lemma ilog2_ge:
  assumes "0 < x" and "pow2 k \<le> x"
  shows "k \<le> ilog2 x"
proof -
  have "pow2 k < pow2 (ilog2 x + 1)" using assms(2) ilog2_upper[OF assms(1)] by linarith
  then have "k < ilog2 x + 1" using pow2_mono[of "ilog2 x + 1" k] by (cases "k < ilog2 x + 1") auto
  then show ?thesis by simp
qed

lemma ilog2_scale:
  assumes "0 < x"
  shows "ilog2 (x * 2 ^ j) = ilog2 x + int j"
proof -
  have p: "0 < x * 2 ^ j" using assms by simp
  have "pow2 (ilog2 x) * 2 ^ j \<le> x * 2 ^ j" using ilog2_lower[OF assms] by simp
  then have "pow2 (ilog2 x + int j) \<le> x * 2 ^ j" by (simp add: pow2_add pow2_nat)
  with p have 1: "ilog2 x + int j \<le> ilog2 (x * 2 ^ j)" by (rule ilog2_ge)
  have "x * 2 ^ j < pow2 (ilog2 x + 1) * 2 ^ j" using ilog2_upper[OF assms] by simp
  then have "x * 2 ^ j < pow2 (ilog2 x + int j + 1)" by (simp add: pow2_add pow2_nat)
  moreover have "pow2 (ilog2 (x * 2 ^ j)) \<le> x * 2 ^ j" using p by (rule ilog2_lower)
  ultimately have "pow2 (ilog2 (x * 2 ^ j)) < pow2 (ilog2 x + int j + 1)" by linarith
  then have "ilog2 (x * 2 ^ j) < ilog2 x + int j + 1"
    using pow2_mono[of "ilog2 x + int j + 1" "ilog2 (x * 2 ^ j)"]
    by (cases "ilog2 (x * 2 ^ j) < ilog2 x + int j + 1") auto
  with 1 show ?thesis by simp
qed

text \<open>Rounding commutes with scaling a number of at least 1 by a power of two.\<close>

lemma f64_round_scale:
  assumes "1 \<le> x"
  shows "f64_round (x * 2 ^ j) = f64_round x * 2 ^ j"
proof -
  have xpos: "0 < x" using assms by simp
  have "pow2 0 \<le> x" using assms by (simp add: pow2_def)
  with xpos have e0: "0 \<le> ilog2 x" by (rule ilog2_ge)
  define u where "u = pow2 (ilog2 x - 52)"
  have u: "0 < u" by (simp add: u_def pow2_pos)
  have a: "\<bar>x\<bar> = x" "\<bar>x * 2 ^ j\<bar> = x * 2 ^ j" using xpos by simp_all
  have m1: "max (ilog2 x) (- 1022) = ilog2 x" using e0 by simp
  have m2: "max (ilog2 (x * 2 ^ j)) (- 1022) = ilog2 x + int j"
    using e0 by (simp add: ilog2_scale[OF xpos])
  have "pow2 (ilog2 x + int j - 52) = pow2 (ilog2 x - 52 + int j)" by (simp add: algebra_simps)
  then have u': "pow2 (ilog2 x + int j - 52) = u * 2 ^ j" by (simp only: pow2_add pow2_nat u_def)
  have "x * 2 ^ j / (u * 2 ^ j) = x / u" by simp
  then have "f64_round (x * 2 ^ j) = of_int (rne (x / u)) * (u * 2 ^ j)"
    using xpos by (simp add: f64_round_unfold a m2 u')
  moreover have "f64_round x = of_int (rne (x / u)) * u"
    using xpos by (simp add: f64_round_unfold a m1 u_def)
  ultimately show ?thesis by simp
qed

lemma is_f64_scale:
  assumes "1 \<le> x"
  shows "is_f64 (x * 2 ^ j) = is_f64 x"
  by (simp add: is_f64_def f64_round_scale[OF assms])

lemma is_f64_times_16: "is_f64 (of_nat (16 * n)) = is_f64 (of_nat n)"
proof (cases "n = 0")
  case True
  then show ?thesis by simp
next
  case False
  then have "(1::rat) \<le> of_nat n" by simp
  then have "is_f64 (of_nat n * 2 ^ 4) = is_f64 (of_nat n)" by (rule is_f64_scale)
  moreover have "(of_nat (16 * n) :: rat) = of_nat n * 2 ^ 4" by simp
  ultimately show ?thesis by (simp only:)
qed

subsection \<open>Evaluating binary64 arithmetic on numerals\<close>

lemma bitlen_numeral_simps:
  "bitlen 1 = 1"
  "bitlen (numeral Num.One) = 1"
  "bitlen (numeral (Num.Bit0 n)) = bitlen (numeral n) + 1"
  "bitlen (numeral (Num.Bit1 n)) = bitlen (numeral n) + 1"
  by (subst compute_bitlen, simp)+

lemma floor_numeral_div:
  "\<lfloor>numeral a / numeral b :: rat\<rfloor> = numeral a div numeral b"
  "\<lfloor>- (numeral a / numeral b) :: rat\<rfloor> = (- numeral a) div numeral b"
  "\<lfloor>1 / numeral b :: rat\<rfloor> = 1 div numeral b"
  "\<lfloor>- (1 / numeral b) :: rat\<rfloor> = (- 1) div numeral b"
  using floor_divide_of_int_eq[of "numeral a" "numeral b", where ?'a = rat]
        floor_divide_of_int_eq[of "- numeral a" "numeral b", where ?'a = rat]
        floor_divide_of_int_eq[of "1" "numeral b", where ?'a = rat]
        floor_divide_of_int_eq[of "- 1" "numeral b", where ?'a = rat]
  by simp_all

lemma ceiling_numeral_div:
  "\<lceil>numeral a / numeral b :: rat\<rceil> = - ((- numeral a) div numeral b)"
  "\<lceil>1 / numeral b :: rat\<rceil> = - ((- 1) div numeral b)"
  unfolding ceiling_def by (simp_all add: floor_numeral_div)

lemmas f64_eval =
  f64_round_def f64_add_def f64_sub_def f64_mul_def f64_div_def f64_of_u64_def u64_of_f64_def
  ilog2_def rne_def pow2_def Let_def bitlen_numeral_simps floor_numeral_div ceiling_numeral_div

subsection \<open>Constants of the model\<close>

lemmas const_defs = Second_def Minute_def ticketGroupTime_def timeWindow_def keepTicketConst_def
  keepTicketExp_def maxRadius_def minRadAverage_def targetWaitTime_def

lemma f64_of_maxRadius: "f64_of_u64 maxRadius = 18446744073709551616"
  by (simp add: f64_eval const_defs)


subsection \<open>Loops\<close>

declare fetch_scan.simps [simp del]

lemma foldE_preserves:
  assumes "foldE f xs s = Inr s'" and "P s"
    and "\<And>x t t'. x \<in> set xs \<Longrightarrow> P t \<Longrightarrow> f x t = Inr t' \<Longrightarrow> P t'"
  shows "P s'"
  using assms
proof (induction xs arbitrary: s)
  case Nil
  then show ?case by simp
next
  case (Cons x xs)
  from Cons.prems(1) obtain t where t: "f x s = Inr t" and r: "foldE f xs t = Inr s'"
    by (auto split: sum.splits)
  have pt: "P t" using Cons.prems(2) t Cons.prems(3)[of x s t] by simp
  show ?case
  proof (rule Cons.IH[OF r pt])
    fix y u u'
    assume "y \<in> set xs" "P u" "f y u = Inr u'"
    then show "P u'" using Cons.prems(3)[of y u u'] by simp
  qed
qed

lemma case_sum_InrE:
  assumes "case x of Inl e \<Rightarrow> False | Inr y \<Rightarrow> P y"
  obtains y where "x = Inr y" and "P y"
  using assms by (cases x) auto

subsection \<open>What add leaves alone\<close>

lemma adjust_frame:
  assumes "topicTickets_adjust E h localTime t minRad r = Inr r'"
  shows "time r' = time r \<and> topic r' = topic r \<and> topicHashPrefix r' = topicHashPrefix r"
  using assms by (auto simp: topicTickets_adjust_def Let_def split: if_splits)

lemma add_frame_refl: "add_frame a sh sh"
  by (simp add: add_frame_def)

lemma add_frame_trans:
  assumes "add_frame a sh sh1" and "add_frame a sh1 sh2"
  shows "add_frame a sh sh2"
proof -
  have "snd sh2 a = (snd sh1 a)\<lparr> refCnt := refCnt (snd sh2 a) \<rparr>"
    using assms(2) by (simp add: add_frame_def)
  also have "snd sh1 a = (snd sh a)\<lparr> refCnt := refCnt (snd sh1 a) \<rparr>"
    using assms(1) by (simp add: add_frame_def)
  finally have "snd sh2 a = (snd sh a)\<lparr> refCnt := refCnt (snd sh2 a) \<rparr>" by simp
  then show ?thesis using assms by (simp add: add_frame_def)
qed

lemma add_slot_frame:
  assumes "add_slot E localTime a rnd i sh = Inr sh'"
  shows "add_frame a sh sh'"
proof -
  obtain s h where sh: "sh = (s, h)" by (cases sh)
  show ?thesis using assms unfolding sh add_frame_def
    by (auto simp: add_slot_def Let_def split: option.splits sum.splits if_splits)
qed

lemma add_slots_frame:
  assumes "foldE (\<lambda>i. add_slot E localTime a (rnd i) i) is sh = Inr sh'"
  shows "add_frame a sh sh'"
  using assms add_frame_refl[of a sh]
proof (rule foldE_preserves)
  fix i t t'
  assume "add_frame a sh t" and "add_slot E localTime a (rnd i) i t = Inr t'"
  then show "add_frame a sh t'" using add_slot_frame add_frame_trans by blast
qed

lemma time_bucket_upd_same_time:
  assumes "topics s tp = Some tt" and "time tt1 = time tt"
  shows "time_bucket (s\<lparr> topics := (topics s)(tp \<mapsto> tt1) \<rparr>) tp' g = time_bucket s tp' g"
  using assms by (simp add: time_bucket_def)

subsection \<open>The scan of a bucket\<close>

lemma same_slots_refl: "same_slots h h"
  by (simp add: same_slots_def)

lemma same_slots_trans: "same_slots h h1 \<Longrightarrow> same_slots h1 h2 \<Longrightarrow> same_slots h h2"
  by (simp add: same_slots_def)

lemma same_slots_refCnt: "same_slots h (h(b := (h b)\<lparr> refCnt := c \<rparr>))"
  by (simp add: same_slots_def)

lemma slot_ok_same_slots: "same_slots h h' \<Longrightarrow> slot_ok h' x = slot_ok h x"
  by (simp add: same_slots_def slot_ok_def)

lemma set_shift_subset:
  assumes "n \<le> length arr"
  shows "set (take i arr @ drop (Suc i) (take n arr) @ drop (n - 1) arr) \<subseteq> set arr"
proof -
  have "set (take i arr) \<subseteq> set arr" by (rule set_take_subset)
  moreover have "set (drop (Suc i) (take n arr)) \<subseteq> set arr"
    using set_drop_subset[of "Suc i" "take n arr"] set_take_subset[of n arr] by blast
  moreover have "set (drop (n - 1) arr) \<subseteq> set arr" by (rule set_drop_subset)
  ultimately show ?thesis by simp
qed

lemma length_shift:
  assumes "i < n" and "n \<le> length arr"
  shows "length (take i arr @ drop (Suc i) (take n arr) @ drop (n - 1) arr) = length arr"
  using assms by simp

lemma fetch_scan_total:
  assumes "n \<le> length arr" and "\<forall>x\<in>set arr. slot_ok h x"
  shows "\<exists>arr' res' nds' h'. fetch_scan E localTime arr n i (res, nds, h) = Inr (arr', res', nds', h')
           \<and> set arr' \<subseteq> set arr \<and> same_slots h h'"
  using assms
proof (induction E localTime arr n i "(res, nds, h)" arbitrary: res nds h rule: fetch_scan.induct)
  case (1 E localTime arr n i res nds h)
  show ?case
  proof (cases "i < n")
    case False
    then show ?thesis by (simp add: fetch_scan.simps same_slots_refl)
  next
    case True
    define t where "t = arr ! i"
    have "t \<in> set arr" using True "1.prems"(1) by (simp add: t_def)
    then have idx: "ref_idx t < length (regTime (h (ref_t t)))"
      using "1.prems"(2) by (simp add: slot_ok_def)
    show ?thesis
    proof (cases "regTime (h (ref_t t)) ! ref_idx t \<le> localTime")
      case False
      have "fetch_scan E localTime arr n i (res, nds, h) = fetch_scan E localTime arr n (Suc i) (res, nds, h)"
        using True idx[unfolded t_def] False[unfolded t_def]
        by (subst fetch_scan.simps) (simp only: Let_def if_True if_False)
      then show ?thesis using "1.hyps"(2)[OF True t_def idx False "1.prems"] by simp
    next
      case due: True
      define arr1 where "arr1 = take i arr @ drop (Suc i) (take n arr) @ drop (n - 1) arr"
      define h1 where "h1 = h(ref_t t := (h (ref_t t))\<lparr> refCnt := int_wrap E (refCnt (h (ref_t t)) - 1) \<rparr>)"
      define nds1 where "nds1 = (if refCnt (h1 (ref_t t)) = 0 then nds(ID (node (h1 (ref_t t))) := None)
                           else nds)"
      have eq: "fetch_scan E localTime arr n i (res, nds, h)
                = fetch_scan E localTime arr1 (n - 1) i (res @ [ref_t t], nds1, h1)"
        unfolding arr1_def nds1_def h1_def t_def
        using True idx[unfolded t_def] due[unfolded t_def]
        by (subst fetch_scan.simps) (simp only: Let_def if_True)
      have sub: "set arr1 \<subseteq> set arr" unfolding arr1_def using "1.prems"(1) by (rule set_shift_subset)
      have len: "n - 1 \<le> length arr1"
        unfolding arr1_def using length_shift[OF True "1.prems"(1)] "1.prems"(1) by simp
      have ss: "same_slots h h1" unfolding h1_def by (rule same_slots_refCnt)
      have ok: "\<forall>x\<in>set arr1. slot_ok h1 x"
        using sub "1.prems"(2) slot_ok_same_slots[OF ss] by auto
      from "1.hyps"(1)[OF True t_def idx due arr1_def h1_def nds1_def len ok]
      obtain arr' res' nds' h' where
        r: "fetch_scan E localTime arr1 (n - 1) i (res @ [ref_t t], nds1, h1) = Inr (arr', res', nds', h')"
        and s: "set arr' \<subseteq> set arr1" and f: "same_slots h1 h'"
        by blast
      have "fetch_scan E localTime arr n i (res, nds, h) = Inr (arr', res', nds', h')"
        using eq r by simp
      moreover have "set arr' \<subseteq> set arr" using s sub by (rule subset_trans)
      moreover have "same_slots h h'" using ss f by (rule same_slots_trans)
      ultimately show ?thesis by blast
    qed
  qed
qed


subsection \<open>C1: what fetch returns\<close>

text \<open>
  C1. The claim is that every scheduled reference that is due is returned by a
  \<^verbatim>\<open>fetch\<close>, and by one only. The code does otherwise on two runs with non-decreasing
  times. In the first, a ticket scheduled for minute 15 is fetched at minute 15 and
  returned; the next \<^verbatim>\<open>fetch\<close>, a nanosecond later, returns it again, because the
  bucket of the current minute keeps its length in the map. In the second, the first
  \<^verbatim>\<open>add\<close> happens in minute 0, so \<^verbatim>\<open>lastGroupFetched\<close> is still 0 when a second
  \<^verbatim>\<open>add\<close> arrives in minute 20 and is set to 20; the \<^verbatim>\<open>fetch\<close> of minute 21 starts at
  bucket 20 and never returns the ticket of minute 15.
\<close>

theorem fetch_returns_twice_or_never:
  "fetch_trace env0
     [AddTopic ''a'' True, Add 0 1 (\<lambda>i. 1), Fetch 900000000000 [''a''], Fetch 900000000001 [''a'']]
     (newTicketStore, heap0) = Inr [[1], [1]]
   \<and> fetch_trace env0
     [AddTopic ''a'' True, Add 0 1 (\<lambda>i. 1), Add 1200000000000 2 (\<lambda>i. 1), Fetch 1260000000000 [''a'']]
     (newTicketStore, heap0) = Inr [[]]"
  by code_simp
subsection \<open>C2: the reference count and the NodeID index\<close>

lemma run_append:
  "run E (xs @ ys) sh = (case run E xs sh of Inl e \<Rightarrow> Inl e | Inr sh1 \<Rightarrow> run E ys sh1)"
  unfolding run_def by (induction xs arbitrary: sh) (auto split: sum.splits)

text \<open>Wrapping again after a subtraction changes nothing.\<close>

lemma int_wrap_diff: "int_wrap E (int_wrap E x - y) = int_wrap E (x - y)"
proof -
  define n where "n = int_size E - 1"
  have "take_bit (Suc n) (signed_take_bit n x - y)
          = take_bit (Suc n) (take_bit (Suc n) (signed_take_bit n x) - y)"
    by (simp add: take_bit_eq_mod mod_diff_left_eq)
  also have "take_bit (Suc n) (signed_take_bit n x) = take_bit (Suc n) x"
    by (simp add: take_bit_signed_take_bit)
  also have "take_bit (Suc n) (take_bit (Suc n) x - y) = take_bit (Suc n) (x - y)"
    by (simp add: take_bit_eq_mod mod_diff_left_eq)
  finally show ?thesis
    by (simp add: int_wrap_def n_def signed_take_bit_eq_iff_take_bit_eq)
qed

lemma minute_15: "(900000000000::uint64) div ticketGroupTime = 15"
  by (simp add: const_defs)

lemma groups_15: "groups 15 15 = [15]"
  by (simp add: groups_def)

text \<open>
  A bucket of the current minute that holds one reference to a ticket that is due: the
  scan returns the ticket and decrements its \<^verbatim>\<open>refCnt\<close>, and the array the map entry
  sees still holds the reference.
\<close>

lemma stale_scan:
  assumes r: "regTime (h 1) = [900000000000]"
  shows "fetch_scan E 900000000000 [\<lparr>ref_t = 1, ref_idx = 0\<rparr>] 1 0 (res, nds, h)
         = Inr ([\<lparr>ref_t = 1, ref_idx = 0\<rparr>], res @ [1],
                (if int_wrap E (refCnt (h 1) - 1) = 0 then nds(ID (node (h 1)) := None) else nds),
                h(1 := (h 1)\<lparr>refCnt := int_wrap E (refCnt (h 1) - 1)\<rparr>))"
  using r by (simp add: fetch_scan.simps Let_def)

text \<open>So a \<^verbatim>\<open>fetch\<close> in that minute changes the store only in the index and the count.\<close>

lemma stale_fetch:
  assumes tt: "topics s ''a'' = Some tt" and m: "time tt = Some m"
    and b: "m 15 = Some [\<lparr>ref_t = 1, ref_idx = 0\<rparr>]"
    and l: "lastGroupFetched s = 15" and r: "regTime (h 1) = [900000000000]"
  shows "ticketStore_fetch E 900000000000 [''a''] (s, h)
         = Inr (s\<lparr>nodes := (if int_wrap E (refCnt (h 1) - 1) = 0 then (nodes s)(ID (node (h 1)) := None)
                             else nodes s)\<rparr>,
                h(1 := (h 1)\<lparr>refCnt := int_wrap E (refCnt (h 1) - 1)\<rparr>), [1])"
proof -
  define nds1 where "nds1 = (if int_wrap E (refCnt (h 1) - 1) = 0 then (nodes s)(ID (node (h 1)) := None)
                             else nodes s)"
  define h1 where "h1 = h(1 := (h 1)\<lparr>refCnt := int_wrap E (refCnt (h 1) - 1)\<rparr>)"
  have m': "m(15 \<mapsto> [\<lparr>ref_t = 1, ref_idx = 0\<rparr>]) = m" using b by (rule map_upd_triv)
  have tt': "tt\<lparr>time := Some m\<rparr> = tt" using m by simp
  have tp': "(topics s)(''a'' \<mapsto> tt) = topics s" using tt by (rule map_upd_triv)
  have bk: "bucket tt 15 = [\<lparr>ref_t = 1, ref_idx = 0\<rparr>]" using m b by (simp add: bucket_def)
  have sc: "fetch_scan E 900000000000 (bucket tt 15) (length (bucket tt 15)) 0 ([], nodes s, h)
              = Inr ([\<lparr>ref_t = 1, ref_idx = 0\<rparr>], [1], nds1, h1)"
    using stale_scan[of h E "[]" "nodes s", OF r] by (simp add: bk nds1_def h1_def)
  have fg: "fetch_group E 900000000000 15 ''a'' 15 (s, h, []) = Inr (s\<lparr>nodes := nds1\<rparr>, h1, [1])"
    by (simp add: fetch_group_def tt sc m b m'[unfolded One_nat_def] tt' tp' Let_def)
  have "ticketStore_fetch E 900000000000 [''a''] (s, h)
          = Inr (s\<lparr>nodes := nds1\<rparr>\<lparr>lastGroupFetched := 15\<rparr>, h1, [1])"
    by (simp add: ticketStore_fetch_def minute_15 groups_15 l fg Let_def)
  moreover have "s\<lparr>nodes := nds1\<rparr>\<lparr>lastGroupFetched := 15\<rparr> = s\<lparr>nodes := nds1\<rparr>"
    using l by simp
  ultimately show ?thesis by (simp only: nds1_def h1_def)
qed

text \<open>Every further \<^verbatim>\<open>fetch\<close> in that minute decrements again.\<close>

lemma stale_fetch_iter:
  assumes tt: "topics s ''a'' = Some tt" and m: "time tt = Some m"
    and b: "m 15 = Some [\<lparr>ref_t = 1, ref_idx = 0\<rparr>]"
    and l: "lastGroupFetched s = 15" and r: "regTime (h 1) = [900000000000]"
    and nd: "nodes s (ID (node (h 1))) = None"
  shows "\<exists>s' h'. run E (replicate n (Fetch 900000000000 [''a''])) (s, h) = Inr (s', h')
           \<and> nodes s' (ID (node (h' 1))) = None
           \<and> refCnt (h' 1) = (if n = 0 then refCnt (h 1) else int_wrap E (refCnt (h 1) - int n))"
  using assms
proof (induction n arbitrary: s h)
  case 0
  then show ?case by (simp add: run_def)
next
  case (Suc n)
  define c where "c = int_wrap E (refCnt (h 1) - 1)"
  define s1 where "s1 = s\<lparr>nodes := (if c = 0 then (nodes s)(ID (node (h 1)) := None) else nodes s)\<rparr>"
  define h1 where "h1 = h(1 := (h 1)\<lparr>refCnt := c\<rparr>)"
  have f: "ticketStore_fetch E 900000000000 [''a''] (s, h) = Inr (s1, h1, [1])"
    unfolding s1_def h1_def c_def using Suc.prems(1-5) by (rule stale_fetch)
  have st: "step E (Fetch 900000000000 [''a'']) (s, h) = Inr (s1, h1)" by (simp add: f)
  have "topics s1 ''a'' = Some tt" "lastGroupFetched s1 = 15" "regTime (h1 1) = [900000000000]"
    "nodes s1 (ID (node (h1 1))) = None"
    using Suc.prems by (simp_all add: s1_def h1_def)
  from Suc.IH[of s1 h1, OF this(1) Suc.prems(2,3) this(2-4)] obtain s' h' where
    r: "run E (replicate n (Fetch 900000000000 [''a''])) (s1, h1) = Inr (s', h')"
    and n: "nodes s' (ID (node (h' 1))) = None"
    and c': "refCnt (h' 1) = (if n = 0 then refCnt (h1 1) else int_wrap E (refCnt (h1 1) - int n))"
    by blast
  have "run E (replicate (Suc n) (Fetch 900000000000 [''a''])) (s, h) = Inr (s', h')"
    using st r by (simp add: run_def)
  moreover have "refCnt (h' 1) = int_wrap E (refCnt (h 1) - int (Suc n))"
  proof (cases "n = 0")
    case True
    then show ?thesis using c' by (simp add: h1_def c_def)
  next
    case False
    then have "refCnt (h' 1) = int_wrap E (int_wrap E (refCnt (h 1) - 1) - int n)"
      using c' by (simp add: h1_def c_def)
    also have "\<dots> = int_wrap E (refCnt (h 1) - 1 - int n)" by (rule int_wrap_diff)
    finally show ?thesis by (simp add: algebra_simps)
  qed
  ultimately show ?case using n by simp
qed

lemma example_stale_store_32:
  "case run env32 [AddTopic ''a'' True, Add 0 1 (\<lambda>i. 1), Fetch 900000000000 [''a'']]
          (newTicketStore, heap0) of
     Inl e \<Rightarrow> False
   | Inr sh \<Rightarrow> stale_store sh"
  by code_simp

lemma example_stale_store_64:
  "case run env0 [AddTopic ''a'' True, Add 0 1 (\<lambda>i. 1), Fetch 900000000000 [''a'']]
          (newTicketStore, heap0) of
     Inl e \<Rightarrow> False
   | Inr sh \<Rightarrow> stale_store sh"
  by code_simp

lemma stale_run:
  assumes p: "case run E [AddTopic ''a'' True, Add 0 1 (\<lambda>i. 1), Fetch 900000000000 [''a'']]
                     (newTicketStore, heap0) of
                Inl e \<Rightarrow> False
              | Inr sh \<Rightarrow> stale_store sh"
    and n: "0 < n"
  shows "\<exists>s h. run E ([AddTopic ''a'' True, Add 0 1 (\<lambda>i. 1)] @ replicate (Suc n) (Fetch 900000000000 [''a'']))
                  (newTicketStore, heap0) = Inr (s, h)
           \<and> refCnt (h 1) = int_wrap E (- int n) \<and> getNodeTicket (ID (node (h 1))) s = None"
proof -
  from p obtain sh1 where
    p1: "run E [AddTopic ''a'' True, Add 0 1 (\<lambda>i. 1), Fetch 900000000000 [''a'']] (newTicketStore, heap0)
           = Inr sh1"
    and q0: "stale_store sh1"
    by (rule case_sum_InrE)
  obtain s1 h1 where sh1: "sh1 = (s1, h1)" by (cases sh1)
  from q0 obtain tt m where tt: "topics s1 ''a'' = Some tt" "time tt = Some m"
      "m 15 = Some [\<lparr>ref_t = 1, ref_idx = 0\<rparr>]"
    and q: "lastGroupFetched s1 = 15" "regTime (h1 1) = [900000000000]"
      "nodes s1 (ID (node (h1 1))) = None"
    and c0: "refCnt (h1 1) = 0"
    by (auto simp: stale_store_def sh1 split: option.splits)
  from stale_fetch_iter[where s = s1 and h = h1 and E = E and n = n, OF tt q] n obtain s' h' where
    r: "run E (replicate n (Fetch 900000000000 [''a''])) (s1, h1) = Inr (s', h')"
    and nd: "nodes s' (ID (node (h' 1))) = None"
    and c: "refCnt (h' 1) = int_wrap E (refCnt (h1 1) - int n)"
    by auto
  have "[AddTopic ''a'' True, Add 0 1 (\<lambda>i. 1)] @ replicate (Suc n) (Fetch 900000000000 [''a''])
          = [AddTopic ''a'' True, Add 0 1 (\<lambda>i. 1), Fetch 900000000000 [''a'']]
              @ replicate n (Fetch 900000000000 [''a''])"
    by (simp only: replicate_Suc append_Cons append_Nil)
  then have "run E ([AddTopic ''a'' True, Add 0 1 (\<lambda>i. 1)] @ replicate (Suc n) (Fetch 900000000000 [''a'']))
          (newTicketStore, heap0) = Inr (s', h')"
    using p1 r by (simp only: run_append sum.case sh1)
  moreover have "refCnt (h' 1) = int_wrap E (- int n)" using c c0 by simp
  ultimately show ?thesis using nd by (simp add: getNodeTicket_def)
qed

text \<open>
  C2 asks that after every sequence of \<^verbatim>\<open>add\<close> and \<^verbatim>\<open>fetch\<close> calls on a fresh store a
  ticket is in the NodeID index exactly when its \<^verbatim>\<open>refCnt\<close> is positive. The code does
  not keep that: \<^verbatim>\<open>fetch\<close> leaves the reference in the bucket of the current minute
  (the defect of C1), so every further \<^verbatim>\<open>fetch\<close> in that minute returns the ticket and
  decrements its \<^verbatim>\<open>refCnt\<close> again, below zero and on until the \<^verbatim>\<open>int\<close> wraps. After
  one \<^verbatim>\<open>add\<close> and \<open>2^31 + 2\<close> calls of \<^verbatim>\<open>fetch\<close> where \<^verbatim>\<open>int\<close> has 32 bits, and
  after \<open>2^63 + 2\<close> calls where it has 64, the ticket is not in the index and its
  \<^verbatim>\<open>refCnt\<close> is the largest positive \<^verbatim>\<open>int\<close>.
\<close>

theorem refCnt_wraps_while_unindexed:
  "(case run env32 ([AddTopic ''a'' True, Add 0 1 (\<lambda>i. 1)]
                      @ replicate 2147483650 (Fetch 900000000000 [''a''])) (newTicketStore, heap0) of
      Inl e \<Rightarrow> False
    | Inr (s, h) \<Rightarrow> refCnt (h 1) = 2147483647 \<and> getNodeTicket (ID (node (h 1))) s = None)
   \<and> (case run env0 ([AddTopic ''a'' True, Add 0 1 (\<lambda>i. 1)]
                      @ replicate 9223372036854775810 (Fetch 900000000000 [''a''])) (newTicketStore, heap0) of
      Inl e \<Rightarrow> False
    | Inr (s, h) \<Rightarrow> refCnt (h 1) = 9223372036854775807 \<and> getNodeTicket (ID (node (h 1))) s = None)"
proof -
  have n32: "(2147483650::nat) = Suc 2147483649" and n64: "(9223372036854775810::nat) = Suc 9223372036854775809"
    by simp_all
  have w32: "int_wrap env32 (- int 2147483649) = 2147483647"
    by (simp add: int_wrap_def env32_def env0_def)
  have w64: "int_wrap env0 (- int 9223372036854775809) = 9223372036854775807"
    by (simp add: int_wrap_def env0_def)
  from stale_run[OF example_stale_store_32, of 2147483649] w32
  have "case run env32 ([AddTopic ''a'' True, Add 0 1 (\<lambda>i. 1)]
                      @ replicate 2147483650 (Fetch 900000000000 [''a''])) (newTicketStore, heap0) of
      Inl e \<Rightarrow> False
    | Inr (s, h) \<Rightarrow> refCnt (h 1) = 2147483647 \<and> getNodeTicket (ID (node (h 1))) s = None"
    unfolding n32 by auto
  moreover from stale_run[OF example_stale_store_64, of 9223372036854775809] w64
  have "case run env0 ([AddTopic ''a'' True, Add 0 1 (\<lambda>i. 1)]
                      @ replicate 9223372036854775810 (Fetch 900000000000 [''a''])) (newTicketStore, heap0) of
      Inl e \<Rightarrow> False
    | Inr (s, h) \<Rightarrow> refCnt (h 1) = 9223372036854775807 \<and> getNodeTicket (ID (node (h 1))) s = None"
    unfolding n64 by auto
  ultimately show ?thesis by (rule conjI)
qed


subsection \<open>C3: from pong to ticket and back\<close>

text \<open>
  C3. The claim is that \<^verbatim>\<open>ticketToPong\<close> gives back the wait periods
  \<^verbatim>\<open>pongToTicket\<close> was given. For a pong with one wait period of 3 seconds received at
  local time 5 s, the ticket's \<^verbatim>\<open>regTime\<close> is 8 s and \<^verbatim>\<open>ticketToPong\<close> writes 8, the
  absolute time in seconds, into \<^verbatim>\<open>WaitPeriods\<close>: it does not subtract the issue time.
\<close>

theorem ticketToPong_writes_absolute_time:
  "WaitPeriods (ticketToPong E (pongToTicket 5000000000 tps n (packet [3])) pg) = [8]"
  by (simp add: ticketToPong_def pongToTicket_def packet_def Duration_div_def Second_def)

subsection \<open>C4: the radius after an adjustment\<close>

text \<open>
  C4. The claim is that the new radius is \<^verbatim>\<open>maxRadius\<close> whenever the proposed radius
  exceeds the largest distance, \<open>2^64 - 1\<close>. For a fresh topic (radius \<^verbatim>\<open>maxRadius\<close>) and
  a ticket whose wait is exactly \<^verbatim>\<open>targetWaitTime\<close>, the error is 0 and the proposed
  radius is \<^verbatim>\<open>float64(maxRadius)\<close>, which is \<open>2^64\<close>. The test
  \<^verbatim>\<open>radius > float64(maxRadius)\<close> is false there, so the code converts \<open>2^64\<close> to
  \<^verbatim>\<open>uint64\<close>: the new radius is whatever the platform makes of a value that does not
  fit.
\<close>

theorem adjust_at_target_wait_leaves_range:
  "map_sum id radius
     (topicTickets_adjust E (\<lambda>a. pongToTicket 0 [tp] n (packet [600])) 0
        \<lparr> ref_t = a, ref_idx = 0 \<rparr> 0 (newtopicTickets E tp reg))
   = Inr (uint64_out_of_range E 18446744073709551616)"
proof -
  have w: "adjust_factor False 600000000000 = 0"
    by (simp add: adjust_factor_def f64_eval const_defs)
  have p: "proposed_radius (newtopicTickets E tp reg) 600000000000 = 18446744073709551616"
    by (simp add: proposed_radius_def newtopicTickets_def w f64_of_maxRadius) (simp add: f64_eval)
  show ?thesis
    by (simp add: topicTickets_adjust_def pongToTicket_def packet_def Second_def p f64_of_maxRadius
        u64_of_f64_def) (simp add: newtopicTickets_def Let_def)
qed

subsection \<open>C5: convergence\<close>

lemma converged_kept_refl: "converged_kept sh sh"
  by (auto simp: converged_kept_def)

lemma converged_kept_trans:
  "converged_kept sh sh1 \<Longrightarrow> converged_kept sh1 sh2 \<Longrightarrow> converged_kept sh sh2"
  unfolding converged_kept_def by blast

lemma adjust_keeps_converged:
  assumes "topicTickets_adjust E h localTime t minRad r = Inr r'" and "converged r"
  shows "converged r'"
  using assms by (auto simp: topicTickets_adjust_def Let_def split: if_splits)

lemma add_slot_converged_kept:
  assumes "add_slot E localTime a rnd i sh = Inr sh'"
  shows "converged_kept sh sh'"
proof -
  obtain s h where sh: "sh = (s, h)" by (cases sh)
  show ?thesis
  proof (cases "topics s (ticket.topics (h a) ! i)")
    case None
    then show ?thesis using assms by (simp add: sh add_slot_def converged_kept_refl)
  next
    case (Some tt)
    show ?thesis
    proof (cases "topicTickets_isInRadius tt (h a)")
      case False
      then show ?thesis using assms Some by (simp add: sh add_slot_def converged_kept_refl)
    next
      case True
      from assms Some True obtain tt1 where
        adj: "topicTickets_adjust E h localTime \<lparr> ref_t = a, ref_idx = i \<rparr> (minRadius s) tt = Inr tt1"
        by (cases "topicTickets_adjust E h localTime \<lparr> ref_t = a, ref_idx = i \<rparr> (minRadius s) tt")
           (simp_all add: sh add_slot_def)
      have c: "converged tt \<Longrightarrow> converged tt1" using adj by (rule adjust_keeps_converged)
      from assms Some True adj obtain tt2 h2 where
        r: "sh' = (s\<lparr> topics := (topics s)(ticket.topics (h a) ! i \<mapsto> tt2) \<rparr>, h2)"
        and c2: "converged tt2 = converged tt1"
        by (auto simp: sh add_slot_def Let_def split: option.splits if_splits)
      show ?thesis unfolding converged_kept_def sh r using Some c c2 by auto
    qed
  qed
qed

lemma add_converged_kept:
  assumes "ticketStore_add E localTime a rnd sh = Inr sh'"
  shows "converged_kept sh sh'"
proof -
  obtain s h where sh: "sh = (s, h)" by (cases sh)
  show ?thesis
  proof (cases "nodes s (ID (node (h a))) = None")
    case False
    then show ?thesis using assms by (simp add: sh ticketStore_add_def converged_kept_refl)
  next
    case True
    define s1 where "s1 = (if lastGroupFetched s = 0
                   then s\<lparr> lastGroupFetched := localTime div ticketGroupTime \<rparr> else s)"
    from assms True obtain s2 h2 where
      f: "foldE (\<lambda>i. add_slot E localTime a (rnd i) i) [0..<length (ticket.topics (h a))] (s1, h) = Inr (s2, h2)"
      and e: "sh' = (if 0 < refCnt (h2 a) then (s2\<lparr> nodes := (nodes s2)(ID (node (h2 a)) \<mapsto> a) \<rparr>, h2) else (s2, h2))"
      by (auto simp: sh ticketStore_add_def Let_def s1_def split: sum.splits if_splits)
    have "converged_kept (s1, h) (s2, h2)"
      using f converged_kept_refl[of "(s1, h)"]
    proof (rule foldE_preserves)
      fix i t t'
      assume "converged_kept (s1, h) t" and "add_slot E localTime a (rnd i) i t = Inr t'"
      then show "converged_kept (s1, h) t'"
        using add_slot_converged_kept converged_kept_trans by blast
    qed
    then show ?thesis unfolding sh e by (auto simp: converged_kept_def s1_def)
  qed
qed

lemma fetch_group_converged_kept:
  assumes "fetch_group E localTime ltGroup tp g shr = Inr shr'"
  shows "converged_kept (fst shr, fst (snd shr)) (fst shr', fst (snd shr'))"
proof -
  obtain s h res where shr: "shr = (s, h, res)" by (cases shr)
  show ?thesis using assms unfolding shr converged_kept_def
    by (auto simp: fetch_group_def Let_def split: option.splits sum.splits)
qed

lemma fetch_converged_kept:
  assumes "ticketStore_fetch E localTime ord sh = Inr (s', h', res)"
  shows "converged_kept sh (s', h')"
proof -
  obtain s h where sh: "sh = (s, h)" by (cases sh)
  define ltGroup where "ltGroup = localTime div ticketGroupTime"
  from assms obtain s1 where
    f: "foldE (\<lambda>tp. foldE (fetch_group E localTime ltGroup tp) (groups (lastGroupFetched s) ltGroup))
              ord (s, h, []) = Inr (s1, h', res)"
    and e: "s' = s1\<lparr> lastGroupFetched := ltGroup \<rparr>"
    by (auto simp: sh ticketStore_fetch_def Let_def ltGroup_def split: sum.splits)
  have "converged_kept3 (s, h, []) (s1, h', res)"
    using f
  proof (rule foldE_preserves)
    show "converged_kept3 (s, h, []) (s, h, [])"
      by (simp add: converged_kept3_def converged_kept_refl)
  next
    fix tp t t'
    assume p: "converged_kept3 (s, h, []) t"
      and g: "foldE (fetch_group E localTime ltGroup tp) (groups (lastGroupFetched s) ltGroup) t = Inr t'"
    show "converged_kept3 (s, h, []) t'"
      using g p
    proof (rule foldE_preserves)
      fix g u u'
      assume "converged_kept3 (s, h, []) u" and "fetch_group E localTime ltGroup tp g u = Inr u'"
      then show "converged_kept3 (s, h, []) u'"
        using fetch_group_converged_kept converged_kept_trans unfolding converged_kept3_def by blast
    qed
  qed
  then show ?thesis unfolding sh e by (auto simp: converged_kept3_def converged_kept_def)
qed

lemma step_converged_kept:
  assumes "step E c sh = Inr sh'"
  shows "converged_kept sh sh'"
proof -
  obtain s h where sh: "sh = (s, h)" by (cases sh)
  show ?thesis
  proof (cases c)
    case (AddTopic t register)
    then show ?thesis using assms unfolding sh
      by (auto simp: ticketStore_addTopic_def converged_kept_def)
  next
    case (Add localTime a rnd)
    then show ?thesis using assms add_converged_kept unfolding sh by simp
  next
    case (Fetch localTime ord)
    then show ?thesis using assms fetch_converged_kept[of E localTime ord "(s, h)"] unfolding sh
      by (auto split: sum.splits)
  next
    case (AdjustMinRadius target found)
    then show ?thesis using assms unfolding sh
      by (auto simp: adjustMinRadius_def Let_def converged_kept_def)
  qed
qed

text \<open>A converged topic stays converged through every sequence of calls.\<close>

lemma run_converged_kept:
  assumes "run E cs sh = Inr sh'"
  shows "converged_kept sh sh'"
  using assms[unfolded run_def] converged_kept_refl[of sh]
proof (rule foldE_preserves)
  fix c t t'
  assume "converged_kept sh t" and "step E c t = Inr t'"
  then show "converged_kept sh t'" using step_converged_kept converged_kept_trans by blast
qed

text \<open>
  C5 has a topic declared converged the first time its new radius is at least
  \<^verbatim>\<open>filteredRadius\<close>. \<^verbatim>\<open>adjust\<close> tests its local \<^verbatim>\<open>float64\<close> variable \<^verbatim>\<open>radius\<close>; where
  it pins the radius to \<^verbatim>\<open>maxRadius\<close> it assigns the new radius to that variable before
  the test, where it raises the radius to the floor \<^verbatim>\<open>minRadius\<close> it does not. Here a
  topic that is not converged, with radius about \<open>1.47 * 10^18\<close> and \<^verbatim>\<open>filteredRadius\<close>
  about \<open>8.9 * 10^18\<close>, is adjusted with wait 0 under a global minimum of \<open>2^63\<close>: the
  new radius is the floor \<open>2^63\<close>, which is above \<^verbatim>\<open>filteredRadius\<close>, and the topic is
  still not converged.
\<close>

theorem radius_floor_does_not_converge:
  "(case topicTickets_adjust env0 heap0 0 \<lparr> ref_t = 3, ref_idx = 0 \<rparr> 9223372036854775808 slow_topic of
      Inl e \<Rightarrow> False
    | Inr r1 \<Rightarrow> radius r1 = 9223372036854775808 \<and> filteredRadius slow_topic \<le> f64_of_u64 (radius r1)
               \<and> \<not> converged r1)"
  by code_simp


subsection \<open>C6: which operations can panic\<close>

lemma refs_valid_iff:
  "refs_valid (s, h) = (\<forall>tp g l x. time_bucket s tp g = Some l \<longrightarrow> x \<in> set l \<longrightarrow> slot_ok h x)"
  by (simp add: refs_valid_def slot_ok_def)

lemma wf_tickets_same_slots: "same_slots h h' \<Longrightarrow> wf_tickets h \<Longrightarrow> wf_tickets h'"
  by (simp add: wf_tickets_def same_slots_def)

lemma refs_valid_same_slots:
  assumes "same_slots h h'" and "refs_valid (s, h)"
  shows "refs_valid (s, h')"
  using assms slot_ok_same_slots[OF assms(1)] by (simp add: refs_valid_iff)

lemma foldE_total:
  assumes "P s"
    and "\<And>x t. x \<in> set xs \<Longrightarrow> P t \<Longrightarrow> \<exists>t'. f x t = Inr t' \<and> P t'"
  shows "\<exists>s'. foldE f xs s = Inr s' \<and> P s'"
  using assms
proof (induction xs arbitrary: s)
  case Nil
  then show ?case by simp
next
  case (Cons x xs)
  from Cons.prems(2)[of x s] Cons.prems(1) obtain t where t: "f x s = Inr t" and pt: "P t" by auto
  have "\<exists>s'. foldE f xs t = Inr s' \<and> P s'"
  proof (rule Cons.IH[OF pt])
    fix y u
    assume "y \<in> set xs" and "P u"
    then show "\<exists>t'. f y u = Inr t' \<and> P t'" using Cons.prems(2)[of y u] by simp
  qed
  then show ?case using t by simp
qed

lemma adjust_total:
  assumes "ref_idx t < length (regTime (h (ref_t t)))"
  shows "\<exists>r'. topicTickets_adjust E h localTime t minRad r = Inr r'"
  using assms by (simp add: topicTickets_adjust_def Let_def)

lemma time_bucket_upd_other:
  assumes "tp' \<noteq> tp"
  shows "time_bucket (s\<lparr> topics := (topics s)(tp \<mapsto> tt) \<rparr>) tp' g = time_bucket s tp' g"
  using assms by (simp add: time_bucket_def)

lemma time_bucket_upd_self:
  "time_bucket (s\<lparr> topics := (topics s)(tp \<mapsto> tt) \<rparr>) tp g
     = (case time tt of None \<Rightarrow> None | Some m \<Rightarrow> m g)"
  by (simp add: time_bucket_def)

lemma add_slot_total:
  assumes rv: "refs_valid (s, h)" and wf: "wf_tickets h" and i: "i < length (ticket.topics (h a))"
  shows "\<exists>s' h'. add_slot E localTime a rnd i (s, h) = Inr (s', h')
           \<and> refs_valid (s', h') \<and> same_slots h h'"
proof -
  have ok: "i < length (regTime (h a))" using wf i by (simp add: wf_tickets_def) (meson order_less_le_trans)
  define tp where "tp = ticket.topics (h a) ! i"
  show ?thesis
  proof (cases "topics s tp")
    case None
    then show ?thesis using rv by (simp add: add_slot_def tp_def same_slots_refl)
  next
    case (Some tt)
    show ?thesis
    proof (cases "topicTickets_isInRadius tt (h a)")
      case False
      then show ?thesis using rv Some by (simp add: add_slot_def tp_def same_slots_refl)
    next
      case True
      from adjust_total[of "\<lparr> ref_t = a, ref_idx = i \<rparr>" h E localTime "minRadius s" tt] ok
      obtain tt1 where
        adj: "topicTickets_adjust E h localTime \<lparr> ref_t = a, ref_idx = i \<rparr> (minRadius s) tt = Inr tt1"
        by auto
      have t1: "time tt1 = time tt" using adjust_frame[OF adj] by simp
      have keep: "refs_valid (s\<lparr> topics := (topics s)(tp \<mapsto> tt1) \<rparr>, h)"
        using rv time_bucket_upd_same_time[OF Some t1] by (simp add: refs_valid_iff)
      define kept where "kept = (converged tt1 \<and> time tt1 \<noteq> None \<and>
            keepTicket rnd (regTime (h a) ! i - localTime))"
      show ?thesis
      proof (cases kept)
        case False
        then have "add_slot E localTime a rnd i (s, h) = Inr (s\<lparr> topics := (topics s)(tp \<mapsto> tt1) \<rparr>, h)"
          using Some True adj
          by (auto simp: add_slot_def tp_def[symmetric] kept_def Let_def split: option.splits)
        then show ?thesis using keep same_slots_refl by blast
      next
        case k: True
        then obtain m where m: "time tt1 = Some m" by (auto simp: kept_def)
        define tgroup where "tgroup = regTime (h a) ! i div ticketGroupTime"
        define l where "l = (case m tgroup of None \<Rightarrow> [] | Some l \<Rightarrow> l)"
        define tt2 where "tt2 = tt1\<lparr> time := Some (m(tgroup \<mapsto> l @ [\<lparr> ref_t = a, ref_idx = i \<rparr>])) \<rparr>"
        define h2 where "h2 = h(a := (h a)\<lparr> refCnt := int_wrap E (refCnt (h a) + 1) \<rparr>)"
        have r: "add_slot E localTime a rnd i (s, h) = Inr (s\<lparr> topics := (topics s)(tp \<mapsto> tt2) \<rparr>, h2)"
          using Some True adj k m
          by (simp add: add_slot_def tp_def[symmetric] kept_def Let_def tgroup_def l_def tt2_def h2_def)
        have ss: "same_slots h h2" unfolding h2_def by (rule same_slots_refCnt)
        have "time tt = Some m" using t1 m by simp
        then have tb: "time_bucket s tp g = m g" for g
          using Some by (simp add: time_bucket_def)
        have old: "slot_ok h x" if "m g = Some l'" and "x \<in> set l'" for g l' x
          using rv that tb[of g] unfolding refs_valid_iff by metis
        have new: "slot_ok h \<lparr> ref_t = a, ref_idx = i \<rparr>" using ok by (simp add: slot_ok_def)
        have "refs_valid (s\<lparr> topics := (topics s)(tp \<mapsto> tt2) \<rparr>, h)"
          unfolding refs_valid_iff
        proof (intro allI impI)
          fix tp' g l' x
          assume b: "time_bucket (s\<lparr> topics := (topics s)(tp \<mapsto> tt2) \<rparr>) tp' g = Some l'"
            and x: "x \<in> set l'"
          show "slot_ok h x"
          proof (cases "tp' = tp")
            case False
            then show ?thesis using b x rv time_bucket_upd_other[OF False] unfolding refs_valid_iff
              by metis
          next
            case True
            then have b2: "(m(tgroup \<mapsto> l @ [\<lparr> ref_t = a, ref_idx = i \<rparr>])) g = Some l'"
              using b by (simp add: time_bucket_upd_self tt2_def)
            show ?thesis
            proof (cases "g = tgroup")
              case False
              then show ?thesis using b2 x old by simp
            next
              case True
              then have "x \<in> set l \<or> x = \<lparr> ref_t = a, ref_idx = i \<rparr>" using b2 x by auto
              moreover have "x \<in> set l \<Longrightarrow> slot_ok h x"
                using old[of tgroup _ x] by (cases "m tgroup") (simp_all add: l_def)
              ultimately show ?thesis using new by auto
            qed
          qed
        qed
        then have "refs_valid (s\<lparr> topics := (topics s)(tp \<mapsto> tt2) \<rparr>, h2)"
          using ss refs_valid_same_slots by blast
        then show ?thesis using r ss by blast
      qed
    qed
  qed
qed

lemma add_total:
  assumes "store_ok sh"
  shows "\<exists>sh'. ticketStore_add E localTime a rnd sh = Inr sh' \<and> store_ok sh'"
proof -
  obtain s h where sh: "sh = (s, h)" by (cases sh)
  show ?thesis
  proof (cases "nodes s (ID (node (h a))) = None")
    case False
    then show ?thesis using assms by (simp add: sh ticketStore_add_def)
  next
    case True
    define s1 where "s1 = (if lastGroupFetched s = 0
                   then s\<lparr> lastGroupFetched := localTime div ticketGroupTime \<rparr> else s)"
    have tb: "time_bucket s1 tp g = time_bucket s tp g" for tp g
      by (simp add: s1_def time_bucket_def)
    define P where "P = (\<lambda>t :: ticketStore \<times> heap. store_ok t \<and> same_slots h (snd t))"
    have p0: "P (s1, h)"
      using assms tb by (simp add: P_def sh store_ok_def refs_valid_iff same_slots_refl)
    have "\<exists>t'. foldE (\<lambda>i. add_slot E localTime a (rnd i) i) [0..<length (ticket.topics (h a))] (s1, h) = Inr t'
            \<and> P t'"
      using p0
    proof (rule foldE_total)
      fix i t
      assume i: "i \<in> set [0..<length (ticket.topics (h a))]" and pt: "P t"
      obtain s2 h2 where t: "t = (s2, h2)" by (cases t)
      have "ticket.topics (h2 a) = ticket.topics (h a)" using pt by (simp add: P_def t same_slots_def)
      then have i2: "i < length (ticket.topics (h2 a))" using i by simp
      from pt have rv: "refs_valid (s2, h2)" and wf: "wf_tickets h2" and ss: "same_slots h h2"
        by (simp_all add: P_def t store_ok_def)
      from add_slot_total[OF rv wf i2, of E localTime "rnd i"] obtain s3 h3 where
        r: "add_slot E localTime a (rnd i) i (s2, h2) = Inr (s3, h3)"
        and rv3: "refs_valid (s3, h3)" and ss3: "same_slots h2 h3" by blast
      have "P (s3, h3)"
        using rv3 wf_tickets_same_slots[OF ss3 wf] same_slots_trans[OF ss ss3]
        by (simp add: P_def store_ok_def)
      then show "\<exists>t'. add_slot E localTime a (rnd i) i t = Inr t' \<and> P t'" using r t by blast
    qed
    then obtain s2 h2 where
      f: "foldE (\<lambda>i. add_slot E localTime a (rnd i) i) [0..<length (ticket.topics (h a))] (s1, h) = Inr (s2, h2)"
      and p2: "P (s2, h2)" by auto
    have tb2: "time_bucket (s2\<lparr> nodes := n \<rparr>) tp g = time_bucket s2 tp g" for n tp g
      by (simp add: time_bucket_def)
    have "store_ok (s2\<lparr> nodes := n \<rparr>, h2)" for n
      using p2 tb2 by (simp add: P_def store_ok_def refs_valid_iff)
    then show ?thesis
      using True f p2 by (auto simp: sh ticketStore_add_def Let_def s1_def[symmetric] P_def)
  qed
qed

lemma bucket_time_bucket:
  assumes "topics s tp = Some tt"
  shows "bucket tt g = (case time_bucket s tp g of None \<Rightarrow> [] | Some l \<Rightarrow> l)"
  using assms by (simp add: bucket_def time_bucket_def split: option.splits)

lemma fetch_group_total:
  assumes rv: "refs_valid (s, h)"
  shows "\<exists>s' h' res'. fetch_group E localTime ltGroup tp g (s, h, res) = Inr (s', h', res')
           \<and> refs_valid (s', h') \<and> same_slots h h' \<and> lastGroupFetched s' = lastGroupFetched s"
proof (cases "topics s tp")
  case None
  then show ?thesis using rv by (simp add: fetch_group_def same_slots_refl)
next
  case (Some tt)
  have ok: "\<forall>x\<in>set (bucket tt g). slot_ok h x"
    using rv unfolding refs_valid_iff bucket_time_bucket[OF Some]
    by (cases "time_bucket s tp g") auto
  from fetch_scan_total[OF order_refl ok, where E = E and localTime = localTime and i = 0 and res = res and nds = "nodes s"]
  obtain arr res1 nds1 h1 where
    sc: "fetch_scan E localTime (bucket tt g) (length (bucket tt g)) 0 (res, nodes s, h)
           = Inr (arr, res1, nds1, h1)"
    and sub: "set arr \<subseteq> set (bucket tt g)" and ss: "same_slots h h1" by blast
  define tm where "tm = (case time tt of
                             None \<Rightarrow> None
                           | Some m \<Rightarrow>
                               Some (if g \<noteq> ltGroup then m(g := None)
                                     else (case m g of None \<Rightarrow> m | Some l \<Rightarrow> m(g \<mapsto> arr))))"
  define s' where "s' = s\<lparr> topics := (topics s)(tp \<mapsto> tt\<lparr> time := tm \<rparr>), nodes := nds1 \<rparr>"
  have r: "fetch_group E localTime ltGroup tp g (s, h, res) = Inr (s', h1, res1)"
    using Some sc by (simp add: fetch_group_def Let_def tm_def s'_def)
  have "refs_valid (s', h)"
    unfolding refs_valid_iff
  proof (intro allI impI)
    fix tp' g' l x
    assume b: "time_bucket s' tp' g' = Some l" and x: "x \<in> set l"
    show "slot_ok h x"
    proof (cases "tp' = tp")
      case False
      then have "time_bucket s' tp' g' = time_bucket s tp' g'"
        by (simp add: s'_def time_bucket_def)
      then show ?thesis using b x rv unfolding refs_valid_iff by metis
    next
      case True
      then have b1: "(case tm of None \<Rightarrow> None | Some m \<Rightarrow> m g') = Some l"
        using b by (simp add: s'_def time_bucket_def)
      then obtain m where m: "time tt = Some m"
        by (cases "time tt") (simp_all add: tm_def)
      have tbs: "time_bucket s tp g'' = m g''" for g''
        using Some m by (simp add: time_bucket_def)
      show ?thesis
      proof (cases "g' = g")
        case False
        then have "m g' = Some l" using b1 m by (auto simp: tm_def split: option.splits if_splits)
        then show ?thesis using rv x tbs[of g'] unfolding refs_valid_iff by metis
      next
        case True
        then have "g = ltGroup \<and> (\<exists>l0. m g = Some l0) \<and> l = arr"
          using b1 m by (auto simp: tm_def split: option.splits if_splits)
        then have "x \<in> set (bucket tt g)" using x sub by auto
        then show ?thesis using ok by simp
      qed
    qed
  qed
  then have "refs_valid (s', h1)" using ss refs_valid_same_slots by blast
  moreover have "lastGroupFetched s' = lastGroupFetched s" by (simp add: s'_def)
  ultimately show ?thesis using r ss by blast
qed

lemma fetch_total:
  assumes "store_ok sh"
  shows "\<exists>s' h' res. ticketStore_fetch E localTime ord sh = Inr (s', h', res) \<and> store_ok (s', h')"
proof -
  obtain s h where sh: "sh = (s, h)" by (cases sh)
  define ltGroup where "ltGroup = localTime div ticketGroupTime"
  define P where "P = (\<lambda>t :: ticketStore \<times> heap \<times> addr list.
      refs_valid (fst t, fst (snd t)) \<and> same_slots h (fst (snd t)))"
  have p0: "P (s, h, [])" using assms by (simp add: P_def sh store_ok_def same_slots_refl)
  have "\<exists>t'. foldE (\<lambda>tp. foldE (fetch_group E localTime ltGroup tp) (groups (lastGroupFetched s) ltGroup))
              ord (s, h, []) = Inr t' \<and> P t'"
    using p0
  proof (rule foldE_total)
    fix tp t
    assume pt: "P t"
    show "\<exists>t'. foldE (fetch_group E localTime ltGroup tp) (groups (lastGroupFetched s) ltGroup) t = Inr t'
            \<and> P t'"
      using pt
    proof (rule foldE_total)
      fix g u
      assume pu: "P u"
      obtain s2 h2 res2 where u: "u = (s2, h2, res2)" by (cases u)
      from pu have rv: "refs_valid (s2, h2)" and ss: "same_slots h h2" by (simp_all add: P_def u)
      from fetch_group_total[OF rv, where E = E and localTime = localTime and ltGroup = ltGroup and tp = tp and g = g and res = res2] obtain s3 h3 res3 where
        r: "fetch_group E localTime ltGroup tp g (s2, h2, res2) = Inr (s3, h3, res3)"
        and rv3: "refs_valid (s3, h3)" and ss3: "same_slots h2 h3" by blast
      have "P (s3, h3, res3)" using rv3 same_slots_trans[OF ss ss3] by (simp add: P_def)
      then show "\<exists>u'. fetch_group E localTime ltGroup tp g u = Inr u' \<and> P u'" using r u by blast
    qed
  qed
  then obtain s1 h1 res where
    f: "foldE (\<lambda>tp. foldE (fetch_group E localTime ltGroup tp) (groups (lastGroupFetched s) ltGroup))
              ord (s, h, []) = Inr (s1, h1, res)"
    and p1: "P (s1, h1, res)" by (metis prod_cases3)
  have tb: "time_bucket (s1\<lparr> lastGroupFetched := ltGroup \<rparr>) tp g = time_bucket s1 tp g" for tp g
    by (simp add: time_bucket_def)
  have wf: "wf_tickets h1" using p1 assms wf_tickets_same_slots by (auto simp: P_def sh store_ok_def)
  have "store_ok (s1\<lparr> lastGroupFetched := ltGroup \<rparr>, h1)"
    using p1 tb wf by (simp add: P_def store_ok_def refs_valid_iff)
  then show ?thesis using f by (simp add: sh ticketStore_fetch_def Let_def ltGroup_def)
qed

lemma step_total:
  assumes "store_ok sh"
  shows "\<exists>sh'. step E c sh = Inr sh' \<and> store_ok sh'"
proof -
  obtain s h where sh: "sh = (s, h)" by (cases sh)
  show ?thesis
  proof (cases c)
    case (AddTopic t register)
    have "time_bucket (ticketStore_addTopic E t register s) tp g = time_bucket s tp g" for tp g
      by (simp add: ticketStore_addTopic_def time_bucket_def newtopicTickets_def Let_def)
    then show ?thesis using assms AddTopic by (simp add: sh store_ok_def refs_valid_iff)
  next
    case (Add localTime a rnd)
    then show ?thesis using add_total[OF assms, of E localTime a rnd] by (simp add: sh)
  next
    case (Fetch localTime ord)
    from fetch_total[OF assms, where E = E and localTime = localTime and ord = ord] obtain s' h' res where
      "ticketStore_fetch E localTime ord sh = Inr (s', h', res)" and "store_ok (s', h')" by blast
    then show ?thesis using Fetch by (simp add: sh)
  next
    case (AdjustMinRadius target found)
    have "time_bucket (adjustMinRadius E target found s) tp g = time_bucket s tp g" for tp g
      by (simp add: adjustMinRadius_def time_bucket_def Let_def)
    then show ?thesis using assms AdjustMinRadius by (simp add: sh store_ok_def refs_valid_iff)
  qed
qed

lemma run_total:
  assumes "store_ok sh"
  shows "\<exists>sh'. run E cs sh = Inr sh' \<and> store_ok sh'"
  unfolding run_def using assms
proof (rule foldE_total)
  fix c t
  assume "store_ok t"
  then show "\<exists>t'. step E c t = Inr t' \<and> store_ok t'" by (rule step_total)
qed

lemma half_radius_positive:
  fixes w :: uint64
  assumes "2 \<le> w"
  shows "0 < sint (w div 2)"
proof -
  have "uint (2 :: uint64) \<le> uint w" using assms by (simp only: word_le_def)
  then have w2: "2 \<le> uint w" by simp
  have "uint w < 2 ^ 64" using uint_bounded[of w] by simp
  then have u: "uint w div 2 < 2 ^ 63" by simp
  have d: "uint (w div 2) = uint w div 2" by (simp add: uint_div)
  have "sint (w div 2) = signed_take_bit 63 (uint (w div 2))" by (simp add: sint_uint)
  also have "\<dots> = uint w div 2"
    unfolding d using u w2 by (intro signed_take_bit_int_eq_self) simp_all
  finally show ?thesis using w2 by simp
qed

lemma nextTarget_total:
  assumes "topics s tp = Some r" and "2 \<le> radius r"
  shows "\<exists>x. ticketStore_nextTarget Int63n tp s = Inr x"
  using assms half_radius_positive[OF assms(2)]
  by (simp add: ticketStore_nextTarget_def topicTickets_nextTarget_def Let_def)

lemma ticketsInWindow_total:
  assumes "topics s tp = Some r"
  shows "\<exists>n. ticketsInWindow now tp s = Inr n"
  using assms by (simp add: ticketsInWindow_def Let_def)

text \<open>
  C6, as the code has it. For tickets that have a registration time for each of their
  topics, every sequence of \<^verbatim>\<open>addTopic\<close>, \<^verbatim>\<open>add\<close>, \<^verbatim>\<open>fetch\<close> and \<^verbatim>\<open>adjustMinRadius\<close>
  calls on a fresh store runs to its end without a panic, and in the store it reaches
  \<^verbatim>\<open>ticketsInWindow\<close> returns for every tracked topic and \<^verbatim>\<open>nextTarget\<close> for every
  tracked topic whose radius is at least 2. (\<^verbatim>\<open>getNodeTicket\<close>, \<^verbatim>\<open>adjustMinRadius\<close> and
  \<^verbatim>\<open>pongToTicket\<close> have no failing branch at all.)
\<close>

theorem operations_complete_normally:
  assumes "wf_tickets h0"
  shows "\<exists>s h. run E cs (newTicketStore, h0) = Inr (s, h)
           \<and> (\<forall>tp r. topics s tp = Some r \<longrightarrow>
                 (\<exists>n. ticketsInWindow now tp s = Inr n)
                 \<and> (2 \<le> radius r \<longrightarrow> (\<exists>x. ticketStore_nextTarget Int63n tp s = Inr x)))"
proof -
  have "time_bucket newTicketStore tp g = None" for tp g
    by (simp add: time_bucket_def newTicketStore_def)
  then have "store_ok (newTicketStore, h0)"
    using assms by (simp add: store_ok_def refs_valid_iff)
  from run_total[OF this, of E cs] obtain s h where "run E cs (newTicketStore, h0) = Inr (s, h)"
    by auto
  then show ?thesis using nextTarget_total ticketsInWindow_total by blast
qed

lemma heap0_wf: "wf_tickets heap0"
  by (simp add: wf_tickets_def heap0_def pongToTicket_def packet_def)

lemma example_tracked_radius:
  "(case run env0 [AddTopic ''a'' True, Add 0 1 (\<lambda>i. 1), Fetch 900000000000 [''a'']]
           (newTicketStore, heap0) of
      Inl e \<Rightarrow> False
    | Inr (s, h) \<Rightarrow> (case topics s ''a'' of None \<Rightarrow> False | Some r \<Rightarrow> 2 \<le> radius r))"
  by code_simp

theorem operations_complete_normally_witness:
  "wf_tickets heap0
   \<and> (\<exists>s h. run env0 [AddTopic ''a'' True, Add 0 1 (\<lambda>i. 1), Fetch 900000000000 [''a'']]
               (newTicketStore, heap0) = Inr (s, h)
        \<and> (\<exists>n. ticketsInWindow 900000000000 ''a'' s = Inr n)
        \<and> (\<exists>x. ticketStore_nextTarget (\<lambda>n. 0) ''a'' s = Inr x))"
proof -
  from operations_complete_normally[OF heap0_wf, of env0
      "[AddTopic ''a'' True, Add 0 1 (\<lambda>i. 1), Fetch 900000000000 [''a'']]" 900000000000 "\<lambda>n. 0"]
  obtain s h where
    r: "run env0 [AddTopic ''a'' True, Add 0 1 (\<lambda>i. 1), Fetch 900000000000 [''a'']]
          (newTicketStore, heap0) = Inr (s, h)"
    and a: "\<And>tp r. topics s tp = Some r \<Longrightarrow>
                 (\<exists>n. ticketsInWindow 900000000000 tp s = Inr n)
                 \<and> (2 \<le> radius r \<longrightarrow> (\<exists>x. ticketStore_nextTarget (\<lambda>n. 0) tp s = Inr x))"
    by blast
  from example_tracked_radius r obtain r0 where "topics s ''a'' = Some r0" and "2 \<le> radius r0"
    by (auto split: option.splits)
  with a[of "''a''" r0] r heap0_wf show ?thesis by blast
qed

text \<open>
  The claim as stated counts a topic that is not tracked among the cases that are
  rejected silently. \<^verbatim>\<open>nextTarget\<close> and \<^verbatim>\<open>ticketsInWindow\<close> dereference
  \<^verbatim>\<open>s.topics[t]\<close> without a test and panic on it.
\<close>

theorem untracked_topic_panics:
  "ticketStore_nextTarget (\<lambda>n. 0) ''a'' newTicketStore = Inl NilDereference
   \<and> ticketsInWindow 0 ''a'' newTicketStore = Inl NilDereference"
  by code_simp

subsection \<open>C7: a ticket from a peer that already has one\<close>

text \<open>
  C7. When the NodeID index already retains a ticket for the registrar of the ticket
  passed to \<^verbatim>\<open>add\<close>, the call returns the store and every ticket unchanged; and
  whatever ticket \<^verbatim>\<open>add\<close> is given, an entry the index holds before the call is still
  there, with the same ticket, after it. The index is a map, so it holds at most one
  ticket per NodeID.
\<close>

theorem duplicate_peer_add_is_noop:
  "(nodes s (ID (node (h a))) \<noteq> None \<longrightarrow> ticketStore_add E localTime a rnd (s, h) = Inr (s, h))
   \<and> (ticketStore_add E localTime a rnd (s, h) = Inr (s', h') \<longrightarrow> nodes s nid = Some b
        \<longrightarrow> nodes s' nid = Some b)"
proof (intro conjI impI)
  assume "nodes s (ID (node (h a))) \<noteq> None"
  then show "ticketStore_add E localTime a rnd (s, h) = Inr (s, h)"
    by (simp add: ticketStore_add_def)
next
  assume r: "ticketStore_add E localTime a rnd (s, h) = Inr (s', h')" and b: "nodes s nid = Some b"
  show "nodes s' nid = Some b"
  proof (cases "nodes s (ID (node (h a))) = None")
    case False
    then show ?thesis using r b by (simp add: ticketStore_add_def)
  next
    case True
    define s1 where "s1 = (if lastGroupFetched s = 0
                   then s\<lparr> lastGroupFetched := localTime div ticketGroupTime \<rparr> else s)"
    from r True obtain s2 h2 where
      f: "foldE (\<lambda>i. add_slot E localTime a (rnd i) i) [0..<length (ticket.topics (h a))] (s1, h) = Inr (s2, h2)"
      and e: "(s', h') = (if 0 < refCnt (h2 a) then (s2\<lparr> nodes := (nodes s2)(ID (node (h2 a)) \<mapsto> a) \<rparr>, h2) else (s2, h2))"
      by (auto simp: ticketStore_add_def Let_def s1_def split: sum.splits if_splits)
    from add_slots_frame[OF f] have n: "nodes s2 = nodes s"
      and "h2 a = (h a)\<lparr> refCnt := refCnt (h2 a) \<rparr>"
      by (auto simp: add_frame_def s1_def)
    then have "node (h2 a) = node (h a)" by (metis ticket.select_convs(5) ticket.surjective ticket.update_convs(6))
    then have "nid \<noteq> ID (node (h2 a))" using True b by auto
    then show ?thesis using e n b by (auto split: if_splits)
  qed
qed

lemma example_duplicate_state: "(case run env0 [AddTopic ''a'' True, Add 0 1 (\<lambda>i. 1)] (newTicketStore, heap0) of
      Inl e \<Rightarrow> None | Inr (s, h) \<Rightarrow> nodes s (ID (node (h 3)))) = Some 1"
  by code_simp

theorem duplicate_peer_add_is_noop_witness:
  "\<exists>s h. run env0 [AddTopic ''a'' True, Add 0 1 (\<lambda>i. 1)] (newTicketStore, heap0) = Inr (s, h)
     \<and> nodes s (ID (node (h 3))) \<noteq> None
     \<and> ticketStore_add env0 60000000000 3 (\<lambda>i. 1) (s, h) = Inr (s, h)
     \<and> nodes s (ID (node (h 3))) = Some 1"
proof -
  obtain s h where r: "run env0 [AddTopic ''a'' True, Add 0 1 (\<lambda>i. 1)] (newTicketStore, heap0) = Inr (s, h)"
    and n: "nodes s (ID (node (h 3))) = Some 1"
    using example_duplicate_state by (auto split: sum.splits)
  from n have "nodes s (ID (node (h 3))) \<noteq> None" by simp
  with duplicate_peer_add_is_noop[of s h 3 env0 60000000000 "\<lambda>i. 1" s h "ID (node (h 3))" 1]
  have "ticketStore_add env0 60000000000 3 (\<lambda>i. 1) (s, h) = Inr (s, h)" by simp
  with r n show ?thesis by auto
qed
subsection \<open>C8: the global minimum radius\<close>

lemma f64_half_max: "f64_round 9223372036854775807 = 9223372036854775808"
  by (simp add: f64_eval)

lemma f64_of_minRadAverage: "f64_of_u64 minRadAverage = 1024"
  by (simp add: f64_eval const_defs)

lemma u64_of_f64_in_range:
  assumes "0 \<le> x" and "x < 18446744073709551616"
  shows "u64_of_f64 oor x = word_of_int \<lfloor>x\<rfloor>"
  using assms by (simp add: u64_of_f64_def)

lemma f64_of_u64_nonneg: "0 \<le> f64_of_u64 w"
proof -
  have "0 \<le> uint w" by (rule uint_ge_0)
  then have "(0::rat) \<le> of_int (uint w)" by (simp only: of_int_0_le_iff)
  then show ?thesis unfolding f64_of_u64_def by (rule f64_round_nonneg)
qed

lemma spec_sample_range: "0 \<le> spec_sample target found \<and> spec_sample target found \<le> 9223372036854775808"
proof -
  have "0 \<le> f64_of_u64 (BigEndian_Uint64 target XOR BigEndian_Uint64 found) * 16"
    using f64_of_u64_nonneg[of "BigEndian_Uint64 target XOR BigEndian_Uint64 found"] by simp
  then have "0 \<le> f64_mul (f64_of_u64 (BigEndian_Uint64 target XOR BigEndian_Uint64 found)) 16"
    unfolding f64_mul_def by (rule f64_round_nonneg)
  then show ?thesis by (simp add: spec_sample_def)
qed

text \<open>The count, a word of at most 1024, converts exactly.\<close>

lemma f64_of_count:
  assumes "unat (w :: uint64) \<le> 1024"
  shows "f64_of_u64 w = of_nat (unat w)"
proof -
  have u: "uint w = int (unat w)" by (rule uint_nat)
  have "int (unat w) \<le> int 1024" using assms by (simp only: of_nat_le_iff)
  then have "int (unat w) \<le> 2 ^ 53" by simp
  moreover have "0 \<le> int (unat w)" by simp
  ultimately have "f64_round (of_int (int (unat w))) = of_int (int (unat w))"
    by (intro f64_round_small_int)
  then show ?thesis by (simp only: f64_of_u64_def u of_int_of_nat_eq)
qed

lemma adjustMinRadius_refines:
  assumes c: "unat (minRadCnt s) = c" "c \<le> 1024"
    and s': "s' = adjustMinRadius E target found s"
    and c': "c' = fst (spec_step (c, minRadSum s) (spec_sample target found))"
  shows "unat (minRadCnt s') = c'"
    and "minRadSum s' = snd (spec_step (c, minRadSum s) (spec_sample target found))"
    and "minRadius s' = u64_of_f64 (uint64_out_of_range E) (f64_div (minRadSum s') (of_nat c'))"
    and "c' \<le> 1024"
proof -
  define x where "x = f64_mul (f64_of_u64 (BigEndian_Uint64 target XOR BigEndian_Uint64 found)) 16"
  define y where "y = spec_sample target found"
  have sm: "(if f64_round 9223372036854775807 < x then f64_round 9223372036854775807 else x) = y"
    by (simp add: f64_half_max spec_sample_def x_def y_def min_def)
  have lt: "(minRadCnt s < minRadAverage) = (c < 1024)"
    by (simp add: minRadAverage_def word_less_nat_alt c(1))
  have "unat (minRadCnt s') = c' \<and> minRadSum s' = snd (spec_step (c, minRadSum s) y)
       \<and> minRadius s' = u64_of_f64 (uint64_out_of_range E) (f64_div (minRadSum s') (of_nat c'))
       \<and> c' \<le> 1024"
  proof (cases "c < 1024")
    case True
    then have u: "unat (minRadCnt s + 1) = c + 1"
      using c(1) by (simp add: unat_word_ariths)
    then have "unat (minRadCnt s + 1) \<le> 1024" using True by simp
    then have "f64_of_u64 (minRadCnt s + 1) = of_nat (unat (minRadCnt s + 1))" by (rule f64_of_count)
    then have f: "f64_of_u64 (minRadCnt s + 1) = of_nat (c + 1)" by (simp only: u)
    have l: "minRadCnt s < minRadAverage" using True lt by blast
    have "s' = s\<lparr> minRadSum := f64_add (minRadSum s) y, minRadCnt := minRadCnt s + 1,
               minRadius := u64_of_f64 (uint64_out_of_range E)
                  (f64_div (f64_add (minRadSum s) y) (of_nat (c + 1))) \<rparr>"
      unfolding s' adjustMinRadius_def Let_def x_def[symmetric] sm
      using l by (simp only: if_True f)
    moreover have "c' = c + 1" using True by (simp add: c')
    ultimately show ?thesis using True u by simp
  next
    case False
    then have c1024: "c = 1024" using c(2) by simp
    have "f64_of_u64 (minRadCnt s) = of_nat (unat (minRadCnt s))"
      using c by (intro f64_of_count) simp
    then have f: "f64_of_u64 (minRadCnt s) = of_nat c" by (simp only: c(1))
    have l: "\<not> minRadCnt s < minRadAverage" using False lt by blast
    have "s' = s\<lparr> minRadSum := f64_add (f64_sub (minRadSum s) (f64_div (minRadSum s) 1024)) y,
               minRadCnt := minRadCnt s,
               minRadius := u64_of_f64 (uint64_out_of_range E)
                  (f64_div (f64_add (f64_sub (minRadSum s) (f64_div (minRadSum s) 1024)) y)
                     (of_nat c)) \<rparr>"
      unfolding s' adjustMinRadius_def Let_def x_def[symmetric] sm
      using l by (simp only: if_False f f64_of_minRadAverage)
    moreover have "c' = c" using False by (simp add: c')
    ultimately show ?thesis using False c by simp
  qed
  then show "unat (minRadCnt s') = c'"
    and "minRadSum s' = snd (spec_step (c, minRadSum s) (spec_sample target found))"
    and "minRadius s' = u64_of_f64 (uint64_out_of_range E) (f64_div (minRadSum s') (of_nat c'))"
    and "c' \<le> 1024"
    by (simp_all only: y_def)
qed

text \<open>The sum stays below \<open>2^63\<close> times the count, or \<open>1025 * 2^63\<close> once the sum decays.\<close>

lemma spec_step_range:
  assumes a: "0 \<le> acc" and b: "acc \<le> (if c < 1024 then of_nat c else 1025) * 9223372036854775808"
    and x: "0 \<le> x" "x \<le> 9223372036854775808" and c: "c \<le> 1024"
    and r: "spec_step (c, acc) x = (c', acc')"
  shows "0 \<le> acc' \<and> acc' \<le> (if c' < 1024 then of_nat c' else 1025) * 9223372036854775808
         \<and> c' = min (Suc c) 1024"
proof (cases "c < 1024")
  case True
  then have c': "c' = Suc c" and acc': "acc' = f64_round (acc + x)" using r by (simp_all add: f64_add_def)
  have le: "acc + x \<le> of_int (int (Suc c)) * 2 ^ 63"
    using b x(2) True by (simp add: algebra_simps)
  have "int (Suc c) \<le> 2 ^ 53" using True by simp
  with le have "f64_round (acc + x) \<le> of_int (int (Suc c)) * 2 ^ 63"
    by (intro f64_round_le_scaled) simp_all
  moreover have "0 \<le> f64_round (acc + x)" using a x(1) by (intro f64_round_nonneg) simp
  ultimately show ?thesis using True by (simp add: c' acc')
next
  case False
  then have c1024: "c = 1024" using c by simp
  define q where "q = f64_round (acc / 1024)"
  define t where "t = f64_round (acc - q)"
  have c': "c' = c" and acc': "acc' = f64_round (t + x)"
    using r False by (simp_all add: f64_add_def f64_sub_def f64_div_def t_def q_def)
  have b': "acc \<le> 1025 * 9223372036854775808" using b False by simp
  have q0: "0 \<le> q" unfolding q_def using a by (intro f64_round_nonneg) simp
  have "q \<le> 2 * (acc / 1024)" unfolding q_def using a by (intro f64_round_le_twice) simp
  then have qle: "q \<le> acc" using a by simp
  have t0: "0 \<le> t" unfolding t_def using qle by (intro f64_round_nonneg) simp
  have "acc - q \<le> of_int 1 * 2 ^ 73"
  proof (cases "acc \<le> 9444732965739290427392")
    case True
    then show ?thesis using q0 by simp
  next
    case False
    then have "of_int 1 * 2 ^ 63 \<le> acc / 1024" by simp
    then have "of_int 1 * 2 ^ 63 \<le> f64_round (acc / 1024)"
      by (intro f64_round_ge_scaled) simp_all
    then show ?thesis using b' by (simp add: q_def)
  qed
  then have "f64_round (acc - q) \<le> of_int 1 * 2 ^ 73"
    by (intro f64_round_le_scaled) simp_all
  then have tle: "t \<le> 9444732965739290427392" by (simp add: t_def)
  have "t + x \<le> of_int 1025 * 2 ^ 63" using tle x(2) by simp
  then have "f64_round (t + x) \<le> of_int 1025 * 2 ^ 63"
    by (intro f64_round_le_scaled) simp_all
  moreover have "0 \<le> f64_round (t + x)" using t0 x(1) by (intro f64_round_nonneg) simp
  ultimately show ?thesis using False c1024 by (simp add: c' acc')
qed

lemma adjustMinRadius_calls_snoc:
  "adjustMinRadius_calls E (ps @ [p]) s = adjustMinRadius E (fst p) (snd p) (adjustMinRadius_calls E ps s)"
  by (simp add: adjustMinRadius_calls_def)

lemma spec_estimator_snoc: "spec_estimator (xs @ [x]) = spec_step (spec_estimator xs) x"
  by (simp add: spec_estimator_def)

lemma estimator_refines:
  "unat (minRadCnt (adjustMinRadius_calls E ps newTicketStore))
     = fst (spec_estimator (map (\<lambda>p. spec_sample (fst p) (snd p)) ps))
   \<and> minRadSum (adjustMinRadius_calls E ps newTicketStore)
     = snd (spec_estimator (map (\<lambda>p. spec_sample (fst p) (snd p)) ps))
   \<and> fst (spec_estimator (map (\<lambda>p. spec_sample (fst p) (snd p)) ps)) = min (length ps) 1024
   \<and> 0 \<le> snd (spec_estimator (map (\<lambda>p. spec_sample (fst p) (snd p)) ps))
   \<and> snd (spec_estimator (map (\<lambda>p. spec_sample (fst p) (snd p)) ps))
       \<le> (if fst (spec_estimator (map (\<lambda>p. spec_sample (fst p) (snd p)) ps)) < 1024
           then of_nat (fst (spec_estimator (map (\<lambda>p. spec_sample (fst p) (snd p)) ps))) else 1025)
          * 9223372036854775808
   \<and> (ps \<noteq> [] \<longrightarrow>
        minRadius (adjustMinRadius_calls E ps newTicketStore)
          = u64_of_f64 (uint64_out_of_range E)
              (f64_div (snd (spec_estimator (map (\<lambda>p. spec_sample (fst p) (snd p)) ps)))
                 (of_nat (fst (spec_estimator (map (\<lambda>p. spec_sample (fst p) (snd p)) ps))))))"
proof (induction ps rule: rev_induct)
  case Nil
  show ?case by (simp add: adjustMinRadius_calls_def spec_estimator_def newTicketStore_def)
next
  case (snoc p ps)
  define s where "s = adjustMinRadius_calls E ps newTicketStore"
  define e where "e = spec_estimator (map (\<lambda>p. spec_sample (fst p) (snd p)) ps)"
  define s' where "s' = adjustMinRadius E (fst p) (snd p) s"
  define e' where "e' = spec_step (fst e, snd e) (spec_sample (fst p) (snd p))"
  have ih: "unat (minRadCnt s) = fst e" "minRadSum s = snd e" "fst e = min (length ps) 1024"
    "0 \<le> snd e" "snd e \<le> (if fst e < 1024 then of_nat (fst e) else 1025) * 9223372036854775808"
    using snoc.IH unfolding s_def e_def by blast+
  have c: "fst e \<le> 1024" using ih(3) by simp
  have 1: "adjustMinRadius_calls E (ps @ [p]) newTicketStore = s'"
    by (simp only: adjustMinRadius_calls_snoc s'_def s_def)
  have 2: "spec_estimator (map (\<lambda>p. spec_sample (fst p) (snd p)) (ps @ [p])) = e'"
    by (simp add: spec_estimator_snoc e'_def e_def)
  have e'2: "spec_step (fst e, minRadSum s) (spec_sample (fst p) (snd p)) = e'"
    by (simp only: e'_def ih(2))
  note r = adjustMinRadius_refines[OF ih(1) c s'_def refl, unfolded e'2]
  have sr: "0 \<le> spec_sample (fst p) (snd p)" "spec_sample (fst p) (snd p) \<le> 9223372036854775808"
    using spec_sample_range[of "fst p" "snd p"] by simp_all
  have "spec_step (fst e, snd e) (spec_sample (fst p) (snd p)) = (fst e', snd e')"
    by (simp add: e'_def)
  from spec_step_range[OF ih(4,5) sr c this]
  have g: "0 \<le> snd e'" "snd e' \<le> (if fst e' < 1024 then of_nat (fst e') else 1025) * 9223372036854775808"
    "fst e' = min (Suc (fst e)) 1024"
    by blast+
  have l: "fst e' = min (length (ps @ [p])) 1024" using g(3) ih(3) by simp
  have "unat (minRadCnt s') = fst e'" using r(1) .
  moreover have "minRadSum s' = snd e'" using r(2) .
  moreover have "minRadius s' = u64_of_f64 (uint64_out_of_range E) (f64_div (snd e') (of_nat (fst e')))"
    using r(3) by (simp only: r(2))
  ultimately show ?case unfolding 1 2 using l g(1,2) by blast
qed

text \<open>The average is a \<^verbatim>\<open>uint64\<close>: no conversion of \<^verbatim>\<open>adjustMinRadius\<close> is out of range.\<close>

lemma average_in_range:
  assumes "1 \<le> c" and "c \<le> 1024" and "0 \<le> acc"
    and "acc \<le> (if c < 1024 then of_nat c else 1025) * 9223372036854775808"
  shows "0 \<le> f64_div acc (of_nat c) \<and> f64_div acc (of_nat c) < 18446744073709551616"
proof -
  have c0: "(0::rat) < of_nat c" using assms(1) by simp
  have n: "0 \<le> f64_div acc (of_nat c)"
    unfolding f64_div_def using assms(3) c0 by (intro f64_round_nonneg) simp
  have "f64_div acc (of_nat c) \<le> of_int 1025 * 2 ^ 53"
  proof (cases "c < 1024")
    case True
    then have "acc \<le> of_nat c * 9223372036854775808" using assms(4) by simp
    then have "acc / of_nat c \<le> 9223372036854775808" using c0 by (simp add: field_simps)
    then have "acc / of_nat c \<le> of_int 1025 * 2 ^ 53" by simp
    then show ?thesis unfolding f64_div_def by (intro f64_round_le_scaled) simp_all
  next
    case False
    then have c: "c = 1024" using assms(2) by simp
    have "acc \<le> 1025 * 9223372036854775808" using assms(4) False by simp
    then have "acc / of_nat c \<le> of_int 1025 * 2 ^ 53" by (simp add: c)
    then show ?thesis unfolding f64_div_def by (intro f64_round_le_scaled) simp_all
  qed
  then have "f64_div acc (of_nat c) < 18446744073709551616" by simp
  with n show ?thesis by simp
qed

lemma estimator_minRadius:
  assumes "ps \<noteq> []"
  shows "minRadius (adjustMinRadius_calls E ps newTicketStore)
           = spec_minRadius (spec_estimator (map (\<lambda>p. spec_sample (fst p) (snd p)) ps))"
proof -
  define e where "e = spec_estimator (map (\<lambda>p. spec_sample (fst p) (snd p)) ps)"
  note r = estimator_refines[of E ps, folded e_def]
  have "1 \<le> length ps" using assms by (cases ps) simp_all
  then have c: "1 \<le> fst e" "fst e \<le> 1024" using r by simp_all
  have "0 \<le> snd e" "snd e \<le> (if fst e < 1024 then of_nat (fst e) else 1025) * 9223372036854775808"
    using r by blast+
  with c have "0 \<le> f64_div (snd e) (of_nat (fst e)) \<and> f64_div (snd e) (of_nat (fst e)) < 18446744073709551616"
    by (rule average_in_range)
  then have "u64_of_f64 (uint64_out_of_range E) (f64_div (snd e) (of_nat (fst e)))
               = word_of_int \<lfloor>f64_div (snd e) (of_nat (fst e))\<rfloor>"
    by (intro u64_of_f64_in_range) simp_all
  then show ?thesis using r assms by (simp add: spec_minRadius_def e_def)
qed

text \<open>Samples whose partial sums are binary64 numbers add up exactly.\<close>

lemma list_all_upt_nth: "list_all P [1..<Suc n] \<Longrightarrow> 1 \<le> k \<Longrightarrow> k \<le> n \<Longrightarrow> P k"
  unfolding list_all_iff by (simp only: set_upt Ball_def atLeastLessThan_iff less_Suc_eq_le)

lemma list_all_upt_less: "list_all P [1..<Suc (Suc n)] \<Longrightarrow> list_all P [1..<Suc n]"
  unfolding list_all_iff by (simp only: set_upt Ball_def atLeastLessThan_iff less_Suc_eq_le) auto

lemma spec_estimator_exact:
  assumes "n \<le> 1024" and "list_all (\<lambda>k. is_f64 (of_nat (k * X))) [1..<Suc n]"
  shows "spec_estimator (replicate n (of_nat X)) = (n, of_nat (n * X))"
  using assms
proof (induction n)
  case 0
  show ?case by (simp add: spec_estimator_def)
next
  case (Suc k)
  have "k \<le> 1024" using Suc.prems(1) by simp
  moreover have "list_all (\<lambda>k. is_f64 (of_nat (k * X))) [1..<Suc k]"
    using Suc.prems(2) by (rule list_all_upt_less)
  ultimately have ih: "spec_estimator (replicate k (of_nat X)) = (k, of_nat (k * X))" by (rule Suc.IH)
  have "is_f64 (of_nat (Suc k * X))" using Suc.prems(2) by (rule list_all_upt_nth) simp_all
  then have r: "f64_round (of_nat (Suc k * X)) = of_nat (Suc k * X)" by (simp only: is_f64_def)
  have "(of_nat (k * X) :: rat) + of_nat X = of_nat (Suc k * X)" by simp
  then have a: "f64_add (of_nat (k * X)) (of_nat X) = of_nat (Suc k * X)"
    unfolding f64_add_def using r by (simp only:)
  have k: "k < 1024" using Suc.prems(1) by simp
  have "replicate (Suc k) (of_nat X :: rat) = replicate k (of_nat X) @ [of_nat X]"
    by (simp only: replicate_append_same replicate_Suc)
  then have "spec_estimator (replicate (Suc k) (of_nat X)) = spec_step (k, of_nat (k * X)) (of_nat X)"
    by (simp only: spec_estimator_snoc ih)
  also have "\<dots> = (Suc k, of_nat (Suc k * X))" using k a by simp
  finally show ?case .
qed

lemma spec_sample_exact:
  fixes d :: uint64
  assumes d: "d = BigEndian_Uint64 target XOR BigEndian_Uint64 found"
    and le: "16 * unat d \<le> unat maxRadius div 2"
    and e1: "is_f64 (of_nat (unat d))" and e2: "is_f64 (of_nat (16 * unat d))"
  shows "spec_sample target found = of_nat (16 * unat d)"
proof -
  have "(of_int (uint d) :: rat) = of_nat (unat d)" by (simp only: uint_nat of_int_of_nat_eq)
  then have "f64_of_u64 d = of_nat (unat d)" using e1 by (simp only: f64_of_u64_def is_f64_def)
  moreover have "(of_nat (unat d) :: rat) * 16 = of_nat (16 * unat d)" by simp
  ultimately have m: "f64_mul (f64_of_u64 d) 16 = of_nat (16 * unat d)"
    using e2 by (simp only: f64_mul_def is_f64_def)
  have "16 * unat d \<le> 9223372036854775807" using le by (simp add: maxRadius_def)
  then have "(of_nat (16 * unat d) :: rat) \<le> of_nat 9223372036854775807" by (simp only: of_nat_le_iff)
  then have "(of_nat (16 * unat d) :: rat) \<le> 9223372036854775808" by simp
  then show ?thesis unfolding spec_sample_def d[symmetric] m by (simp only: min_def if_True)
qed

lemma word_16_mult:
  fixes d :: uint64
  shows "word_of_int (int (16 * unat d)) = 16 * d"
  by simp

lemma minRadius_constant:
  fixes d :: uint64
  assumes n: "1 \<le> n" "n \<le> 1024"
    and d: "d = BigEndian_Uint64 target XOR BigEndian_Uint64 found"
    and le: "16 * unat d \<le> unat maxRadius div 2"
    and exd: "list_all (\<lambda>k. is_f64 (of_nat (k * unat d))) [1..<Suc n]"
  shows "minRadius (adjustMinRadius_calls E (replicate n (target, found)) newTicketStore) = 16 * d"
proof -
  define X where "X = 16 * unat d"
  have "is_f64 (of_nat (1 * unat d))" using exd _ n(1) by (rule list_all_upt_nth) simp
  then have e1: "is_f64 (of_nat (unat d))" by simp
  have "\<And>k. is_f64 (of_nat (k * (16 * unat d))) = is_f64 (of_nat (k * unat d))"
  proof -
    fix k
    have "k * (16 * unat d) = 16 * (k * unat d)" by simp
    then show "is_f64 (of_nat (k * (16 * unat d))) = is_f64 (of_nat (k * unat d))"
      by (simp only: is_f64_times_16)
  qed
  then have ex: "list_all (\<lambda>k. is_f64 (of_nat (k * (16 * unat d)))) [1..<Suc n]"
    using exd by (simp only:)
  have "is_f64 (of_nat (1 * X))" unfolding X_def using ex _ n(1) by (rule list_all_upt_nth) simp
  then have e2: "is_f64 (of_nat X)" by simp
  have sm: "spec_sample target found = of_nat X"
    unfolding X_def using d le e1 e2[unfolded X_def] by (rule spec_sample_exact)
  have ne: "replicate n (target, found) \<noteq> []" using n(1) by simp
  have "map (\<lambda>p. spec_sample (fst p) (snd p)) (replicate n (target, found)) = replicate n (of_nat X)"
    by (simp add: sm)
  moreover have "spec_estimator (replicate n (of_nat X)) = (n, of_nat (n * X))"
    using n(2) ex[folded X_def] by (rule spec_estimator_exact)
  ultimately have "minRadius (adjustMinRadius_calls E (replicate n (target, found)) newTicketStore)
        = spec_minRadius (n, of_nat (n * X))"
    using estimator_minRadius[OF ne, of E] by (simp only:)
  moreover have "(of_nat (n * X) :: rat) / of_nat n = of_nat X" using n(1) by simp
  then have "f64_div (of_nat (n * X)) (of_nat n) = of_nat X"
    unfolding f64_div_def using e2 by (simp only: is_f64_def)
  then have "spec_minRadius (n, of_nat (n * X)) = word_of_int \<lfloor>(of_nat X :: rat)\<rfloor>"
    by (simp only: spec_minRadius_def fst_conv snd_conv)
  moreover have "\<lfloor>(of_nat X :: rat)\<rfloor> = int X" by simp
  ultimately show ?thesis unfolding X_def by (simp only: word_16_mult)
qed

text \<open>
  C8. For every sequence of \<^verbatim>\<open>adjustMinRadius\<close> calls on a fresh store the code keeps
  the estimator the claim describes, in binary64 arithmetic: the sample is the smaller
  of 16 times the prefix distance and \<open>2^63\<close>; the count is the number of calls up to
  1024; below 1024 the sample is added to the sum and at 1024 the sum is first decayed
  by 1/1024 of itself; \<^verbatim>\<open>minRadius\<close> is the average truncated to an integer, which is
  always in the range of \<^verbatim>\<open>uint64\<close>. In particular, after \<open>n\<close> calls, \<open>1 \<le> n \<le> 1024\<close>,
  all at the same prefix distance \<open>d\<close> with \<open>16 * d \<le> maxRadius / 2\<close>, \<^verbatim>\<open>minRadius\<close> is
  \<open>16 * d\<close> whenever the multiples \<open>k * d\<close>, \<open>1 \<le> k \<le> n\<close>, are binary64 numbers: then
  \<open>d\<close> converts exactly and every partial sum of the samples is exact.
\<close>

theorem minRadius_estimator:
  "(let s = adjustMinRadius_calls E ps newTicketStore;
        e = spec_estimator (map (\<lambda>p. spec_sample (fst p) (snd p)) ps)
    in unat (minRadCnt s) = fst e \<and> fst e = min (length ps) 1024 \<and> minRadSum s = snd e
       \<and> (ps \<noteq> [] \<longrightarrow> minRadius s = spec_minRadius e))
   \<and> (1 \<le> n \<and> n \<le> 1024
        \<and> 16 * unat (BigEndian_Uint64 target XOR BigEndian_Uint64 found) \<le> unat maxRadius div 2
        \<and> list_all (\<lambda>k. is_f64 (of_nat (k * unat (BigEndian_Uint64 target XOR BigEndian_Uint64 found))))
              [1..<Suc n]
      \<longrightarrow> minRadius (adjustMinRadius_calls E (replicate n (target, found)) newTicketStore)
            = 16 * (BigEndian_Uint64 target XOR BigEndian_Uint64 found))"
proof (intro conjI impI)
  show "let s = adjustMinRadius_calls E ps newTicketStore;
        e = spec_estimator (map (\<lambda>p. spec_sample (fst p) (snd p)) ps)
    in unat (minRadCnt s) = fst e \<and> fst e = min (length ps) 1024 \<and> minRadSum s = snd e
       \<and> (ps \<noteq> [] \<longrightarrow> minRadius s = spec_minRadius e)"
    unfolding Let_def using estimator_refines[of E ps] estimator_minRadius[of ps E] by blast
next
  assume "1 \<le> n \<and> n \<le> 1024
        \<and> 16 * unat (BigEndian_Uint64 target XOR BigEndian_Uint64 found) \<le> unat maxRadius div 2
        \<and> list_all (\<lambda>k. is_f64 (of_nat (k * unat (BigEndian_Uint64 target XOR BigEndian_Uint64 found))))
              [1..<Suc n]"
  then show "minRadius (adjustMinRadius_calls E (replicate n (target, found)) newTicketStore)
            = 16 * (BigEndian_Uint64 target XOR BigEndian_Uint64 found)"
    using minRadius_constant[OF _ _ refl, of n target found E] by blast
qed

lemma example_distance_7:
  "BigEndian_Uint64 (replicate 64 0) XOR BigEndian_Uint64 (replicate 7 0 @ [7] @ replicate 56 0) = 7"
  by code_simp

lemma is_f64_small: "n \<le> 2 ^ 53 \<Longrightarrow> is_f64 (of_nat n)"
proof -
  assume "n \<le> 2 ^ 53"
  then have "int n \<le> int (2 ^ 53)" by (simp only: of_nat_le_iff)
  then have "int n \<le> 2 ^ 53" by simp
  moreover have "0 \<le> int n" by simp
  ultimately have "f64_round (of_int (int n)) = of_int (int n)" by (intro f64_round_small_int)
  then show ?thesis by (simp only: is_f64_def of_int_of_nat_eq)
qed

lemma example_sums_exact:
  "list_all (\<lambda>k. is_f64 (of_nat (k * unat (7 :: uint64)))) [1..<Suc 1024]"
  "list_all (\<lambda>k. is_f64 (of_nat (k * (16 * unat (7 :: uint64))))) [1..<Suc 1024]"
proof -
  have "\<And>k. k \<le> 1024 \<Longrightarrow> is_f64 (of_nat (k * (16 * unat (7 :: uint64))))"
  proof -
    fix k :: nat
    assume "k \<le> 1024"
    then have "k * (16 * unat (7 :: uint64)) \<le> 1024 * 112" by simp
    then have "k * (16 * unat (7 :: uint64)) \<le> 2 ^ 53" by simp
    then show "is_f64 (of_nat (k * (16 * unat (7 :: uint64))))" by (rule is_f64_small)
  qed
  then show "list_all (\<lambda>k. is_f64 (of_nat (k * (16 * unat (7 :: uint64))))) [1..<Suc 1024]"
    unfolding list_all_iff by (simp only: set_upt Ball_def atLeastLessThan_iff less_Suc_eq_le) blast
  have "\<And>k. k \<le> 1024 \<Longrightarrow> is_f64 (of_nat (k * unat (7 :: uint64)))"
  proof -
    fix k :: nat
    assume "k \<le> 1024"
    then have "k * unat (7 :: uint64) \<le> 1024 * 7" by simp
    then have "k * unat (7 :: uint64) \<le> 2 ^ 53" by simp
    then show "is_f64 (of_nat (k * unat (7 :: uint64)))" by (rule is_f64_small)
  qed
  then show "list_all (\<lambda>k. is_f64 (of_nat (k * unat (7 :: uint64)))) [1..<Suc 1024]"
    unfolding list_all_iff by (simp only: set_upt Ball_def atLeastLessThan_iff less_Suc_eq_le) blast
qed

lemma example_decay_step:
  "spec_step (1024, 114688) 112 = (1024, 114688)"
  "spec_minRadius (1024, 114688) = 112"
  by (simp_all add: spec_minRadius_def f64_eval)

theorem minRadius_estimator_witness:
  "replicate 1025 (replicate 64 0, replicate 7 0 @ [7] @ replicate 56 0) \<noteq> []
   \<and> unat (minRadCnt (adjustMinRadius_calls env0
          (replicate 1025 (replicate 64 0, replicate 7 0 @ [7] @ replicate 56 0)) newTicketStore)) = 1024
   \<and> minRadius (adjustMinRadius_calls env0
          (replicate 1025 (replicate 64 0, replicate 7 0 @ [7] @ replicate 56 0)) newTicketStore) = 112
   \<and> (1::nat) \<le> 1024 \<and> (1024::nat) \<le> 1024
   \<and> 16 * unat (7 :: uint64) \<le> unat maxRadius div 2
   \<and> list_all (\<lambda>k. is_f64 (of_nat (k * unat (7 :: uint64)))) [1..<Suc 1024]
   \<and> minRadius (adjustMinRadius_calls env0
          (replicate 1024 (replicate 64 0, replicate 7 0 @ [7] @ replicate 56 0)) newTicketStore) = 112"
proof -
  define z :: NodeID where "z = replicate 64 0"
  define f :: NodeID where "f = replicate 7 0 @ [7] @ replicate 56 0"
  have d: "BigEndian_Uint64 z XOR BigEndian_Uint64 f = 7" unfolding z_def f_def by (rule example_distance_7)
  have le: "16 * unat (7 :: uint64) \<le> unat maxRadius div 2" by (simp add: maxRadius_def)
  have e1: "is_f64 (of_nat (unat (7 :: uint64)))" by (rule is_f64_small) simp
  note exd = example_sums_exact(1)
  note ex = example_sums_exact(2)
  have "is_f64 (of_nat (1 * (16 * unat (7 :: uint64))))" using ex by (rule list_all_upt_nth) simp_all
  then have e2: "is_f64 (of_nat (16 * unat (7 :: uint64)))" by simp
  have "spec_sample z f = of_nat (16 * unat (7 :: uint64))"
    using d[symmetric] le e1 e2 by (rule spec_sample_exact)
  then have sm: "spec_sample z f = 112" by simp
  have "spec_estimator (replicate 1024 (of_nat (16 * unat (7 :: uint64))))
          = (1024, of_nat (1024 * (16 * unat (7 :: uint64))))"
    using _ ex by (rule spec_estimator_exact) simp
  then have e1024: "spec_estimator (replicate 1024 112) = (1024, 114688)" by simp
  have "replicate 1025 (112 :: rat) = replicate 1024 112 @ [112]"
  proof -
    have "(1025::nat) = Suc 1024" by simp
    then show ?thesis by (simp only: replicate_append_same replicate_Suc)
  qed
  then have "spec_estimator (replicate 1025 112) = spec_step (1024, 114688) 112"
    by (simp only: spec_estimator_snoc e1024)
  then have e1025: "spec_estimator (replicate 1025 112) = (1024, 114688)"
    by (simp only: example_decay_step)
  have m: "map (\<lambda>p. spec_sample (fst p) (snd p)) (replicate 1025 (z, f)) = replicate 1025 112"
    by (simp add: sm)
  note th = minRadius_estimator[of env0 "replicate 1025 (z, f)" 1024 z f, unfolded Let_def m e1025 d]
  have ne: "replicate 1025 (z, f) \<noteq> []" by simp
  have n: "(1::nat) \<le> 1024" "(1024::nat) \<le> 1024" by simp_all
  from th ne have "unat (minRadCnt (adjustMinRadius_calls env0 (replicate 1025 (z, f)) newTicketStore)) = 1024"
    by simp
  moreover from th ne have "minRadius (adjustMinRadius_calls env0 (replicate 1025 (z, f)) newTicketStore) = 112"
    by (simp add: example_decay_step)
  moreover from th n le exd
  have "minRadius (adjustMinRadius_calls env0 (replicate 1024 (z, f)) newTicketStore) = 16 * 7"
    by blast
  ultimately show ?thesis using ne n le exd unfolding z_def f_def by simp
qed

lemma is_f64_scaled: "m \<le> 2 ^ 53 \<Longrightarrow> is_f64 (of_nat (m * 2 ^ j))"
proof -
  assume "m \<le> 2 ^ 53"
  then have "int m \<le> int (2 ^ 53)" by (simp only: of_nat_le_iff)
  then have "int m \<le> 2 ^ 53" by simp
  moreover have "0 \<le> int m" by simp
  ultimately have "f64_round (of_int (int m) * 2 ^ j) = of_int (int m) * 2 ^ j"
    by (intro f64_round_scaled_int)
  moreover have "(of_nat (m * 2 ^ j) :: rat) = of_int (int m) * 2 ^ j" by simp
  ultimately show ?thesis by (simp only: is_f64_def)
qed

text \<open>
  Distances of more than 53 bits are covered when they and the sums are binary64
  numbers: one call at \<open>d = 2^58\<close>, two calls at \<open>d = 2^53\<close>.
\<close>

lemma example_large_exact_distances:
  "minRadius (adjustMinRadius_calls E (replicate 1 (replicate 64 0, [4] @ replicate 63 0)) newTicketStore)
     = 16 * 288230376151711744"
  "minRadius (adjustMinRadius_calls E (replicate 2 (replicate 64 0, [0, 32] @ replicate 62 0)) newTicketStore)
     = 16 * 9007199254740992"
proof -
  have d1: "BigEndian_Uint64 (replicate 64 0) XOR BigEndian_Uint64 ([4] @ replicate 63 0) = 288230376151711744"
    by code_simp
  have d2: "BigEndian_Uint64 (replicate 64 0) XOR BigEndian_Uint64 ([0, 32] @ replicate 62 0) = 9007199254740992"
    by code_simp
  have a: "is_f64 (of_nat (1 * 2 ^ 58))" "is_f64 (of_nat (1 * 2 ^ 62))"
    "is_f64 (of_nat (1 * 2 ^ 53))" "is_f64 (of_nat (1 * 2 ^ 57))"
    by (rule is_f64_scaled, simp)+
  have a54: "is_f64 (of_nat (1 * 2 ^ 54))" by (rule is_f64_scaled) simp
  have u1: "unat (288230376151711744 :: uint64) = 288230376151711744"
    and u2: "unat (9007199254740992 :: uint64) = 9007199254740992" by simp_all
  have "list_all (\<lambda>k. is_f64 (of_nat (k * unat (288230376151711744 :: uint64)))) [1..<Suc 1]"
    using a(1) by (simp add: u1)
  moreover have "16 * unat (288230376151711744 :: uint64) \<le> unat maxRadius div 2"
    by (simp add: maxRadius_def)
  ultimately show "minRadius (adjustMinRadius_calls E (replicate 1 (replicate 64 0, [4] @ replicate 63 0))
      newTicketStore) = 16 * 288230376151711744"
    using minRadius_constant[OF _ _ d1[symmetric], of 1 E] by simp
  have "[1..<Suc 2] = [1, 2]" by (simp add: upt_rec)
  then have "list_all (\<lambda>k. is_f64 (of_nat (k * unat (9007199254740992 :: uint64)))) [1..<Suc 2]"
    using a(3) a54 by (simp add: u2)
  moreover have "16 * unat (9007199254740992 :: uint64) \<le> unat maxRadius div 2"
    by (simp add: maxRadius_def)
  ultimately show "minRadius (adjustMinRadius_calls E (replicate 2 (replicate 64 0, [0, 32] @ replicate 62 0))
      newTicketStore) = 16 * 9007199254740992"
    using minRadius_constant[OF _ _ d2[symmetric], of 2 E] by simp
qed

text \<open>
  The condition is sufficient, not necessary: three calls at \<open>d = 2^52 + 1\<close> give
  \<open>16 * d\<close> although \<open>3 * d\<close> is not a binary64 number, because the rounded sum divided
  by 3 rounds back to \<open>16 * d\<close>.
\<close>

lemma example_lucky_rounding:
  "minRadius (adjustMinRadius_calls env0
      (replicate 3 (replicate 64 0, [0, 16, 0, 0, 0, 0, 0, 1] @ replicate 56 0)) newTicketStore)
     = 16 * 4503599627370497"
  "\<not> is_f64 (of_nat (3 * 4503599627370497))"
proof -
  have d: "BigEndian_Uint64 (replicate 64 0)
             XOR BigEndian_Uint64 ([0, 16, 0, 0, 0, 0, 0, 1] @ replicate 56 0) = 4503599627370497"
    by code_simp
  have m0: "f64_mul (f64_of_u64 4503599627370497) 16 = 72057594037927952"
    by (simp add: f64_eval)
  have sm: "spec_sample (replicate 64 0) ([0, 16, 0, 0, 0, 0, 0, 1] @ replicate 56 0)
               = 72057594037927952"
    unfolding spec_sample_def d m0 by simp
  have s: "f64_add 0 72057594037927952 = 72057594037927952"
    "f64_add 72057594037927952 72057594037927952 = 144115188075855904"
    "f64_add 144115188075855904 72057594037927952 = 216172782113783872"
    by (simp_all add: f64_eval)
  have r: "replicate 3 x = [x, x, x]" for x :: rat by (simp add: numeral_eq_Suc)
  have e: "spec_estimator (replicate 3 72057594037927952) = (3, 216172782113783872)"
    by (simp add: r spec_estimator_def s)
  have m: "spec_minRadius (3, 216172782113783872) = 72057594037927952"
    by (simp add: spec_minRadius_def f64_eval)
  have "replicate 3 (replicate 64 (0::byte), [0, 16, 0, 0, 0, 0, 0, 1] @ replicate 56 (0::byte)) \<noteq> []"
    by simp
  from estimator_minRadius[OF this, of env0]
  show "minRadius (adjustMinRadius_calls env0
      (replicate 3 (replicate 64 0, [0, 16, 0, 0, 0, 0, 0, 1] @ replicate 56 0)) newTicketStore)
     = 16 * 4503599627370497"
    by (simp only: map_replicate fst_conv snd_conv sm e m) simp
  show "\<not> is_f64 (of_nat (3 * 4503599627370497))"
    by (simp add: is_f64_def f64_eval)
qed

lemma replicate_5: "replicate 5 x = [x, x, x, x, x]"
  by (simp add: numeral_eq_Suc)

lemma example_rounded_sums:
  "spec_sample (replicate 64 0) ([0, 31, 255, 255, 255, 255, 255, 255] @ replicate 56 0) = 144115188075855856"
  "spec_estimator (replicate 5 144115188075855856) = (5, 720575940379279232)"
  "spec_minRadius (5, 720575940379279232) = 144115188075855840"
proof -
  have d: "BigEndian_Uint64 (replicate 64 0)
             XOR BigEndian_Uint64 ([0, 31, 255, 255, 255, 255, 255, 255] @ replicate 56 0) = 9007199254740991"
    by code_simp
  have m: "f64_mul (f64_of_u64 9007199254740991) 16 = 144115188075855856"
    by (simp add: f64_eval)
  show "spec_sample (replicate 64 0) ([0, 31, 255, 255, 255, 255, 255, 255] @ replicate 56 0)
               = 144115188075855856"
    unfolding spec_sample_def d m by simp
  have s: "f64_add 0 144115188075855856 = 144115188075855856"
    "f64_add 144115188075855856 144115188075855856 = 288230376151711712"
    "f64_add 288230376151711712 144115188075855856 = 432345564227567552"
    "f64_add 432345564227567552 144115188075855856 = 576460752303423424"
    "f64_add 576460752303423424 144115188075855856 = 720575940379279232"
    by (simp_all add: f64_eval)
  show "spec_estimator (replicate 5 144115188075855856) = (5, 720575940379279232)"
    by (simp add: replicate_5 spec_estimator_def s)
  show "spec_minRadius (5, 720575940379279232) = 144115188075855840"
    by (simp add: spec_minRadius_def f64_eval)
qed

text \<open>
  The claim as stated, with \<open>16 * d \<le> maxRadius / 2\<close> only, fails in two ways. One call
  at \<open>d = 2^53 + 1\<close>, which is not a binary64 number: \<^verbatim>\<open>float64(dist)\<close> rounds \<open>d\<close> to
  \<open>2^53\<close> and \<^verbatim>\<open>minRadius\<close> is \<open>2^57\<close>, not \<open>2^57 + 16\<close>. Five calls at \<open>d = 2^53 - 1\<close>,
  which is a binary64 number: the third and the fifth sum are rounded and \<^verbatim>\<open>minRadius\<close>
  is \<open>16 * d - 16\<close>.
\<close>

theorem minRadius_differs_from_16_times_distance:
  "minRadius (adjustMinRadius env0 (replicate 64 0) near_node newTicketStore) = 144115188075855872
   \<and> BigEndian_Uint64 (replicate 64 0) XOR BigEndian_Uint64 near_node = 9007199254740993
   \<and> (16 :: uint64) * 9007199254740993 = 144115188075855888
   \<and> (16 :: uint64) * 9007199254740993 \<le> maxRadius div 2
   \<and> minRadius (adjustMinRadius_calls env0
        (replicate 5 (replicate 64 0, [0, 31, 255, 255, 255, 255, 255, 255] @ replicate 56 0)) newTicketStore)
       = 144115188075855840
   \<and> BigEndian_Uint64 (replicate 64 0)
       XOR BigEndian_Uint64 ([0, 31, 255, 255, 255, 255, 255, 255] @ replicate 56 0) = 9007199254740991
   \<and> (16 :: uint64) * 9007199254740991 = 144115188075855856
   \<and> (16 :: uint64) * 9007199254740991 \<le> maxRadius div 2"
proof -
  have one: "minRadius (adjustMinRadius env0 (replicate 64 0) near_node newTicketStore) = 144115188075855872
     \<and> BigEndian_Uint64 (replicate 64 0) XOR BigEndian_Uint64 near_node = 9007199254740993
     \<and> (16 :: uint64) * 9007199254740993 = 144115188075855888
     \<and> (16 :: uint64) * 9007199254740993 \<le> maxRadius div 2"
    by code_simp
  have "replicate 5 (replicate 64 (0::byte), [0, 31, 255, 255, 255, 255, 255, 255] @ replicate 56 (0::byte)) \<noteq> []"
    by simp
  from estimator_minRadius[OF this, of env0]
  have "minRadius (adjustMinRadius_calls env0
      (replicate 5 (replicate 64 0, [0, 31, 255, 255, 255, 255, 255, 255] @ replicate 56 0)) newTicketStore)
     = 144115188075855840"
    by (simp only: map_replicate fst_conv snd_conv example_rounded_sums)
  moreover have "BigEndian_Uint64 (replicate 64 0)
       XOR BigEndian_Uint64 ([0, 31, 255, 255, 255, 255, 255, 255] @ replicate 56 0) = 9007199254740991"
    by code_simp
  moreover have "(16 :: uint64) * 9007199254740991 = 144115188075855856
     \<and> (16 :: uint64) * 9007199254740991 \<le> maxRadius div 2"
    by code_simp
  ultimately show ?thesis using one by blast
qed


subsection \<open>C9: buckets left behind by fetch\<close>

text \<open>
  C9. The claim is that after \<^verbatim>\<open>fetch(t)\<close> no bucket older than the bucket of \<open>t\<close>
  is left. After an \<^verbatim>\<open>add\<close> in minute 0 that schedules a ticket for minute 15 and a
  second \<^verbatim>\<open>add\<close> in minute 20, \<^verbatim>\<open>fetch\<close> in minute 21 leaves bucket 15 in the map,
  with its ticket.
\<close>

theorem fetch_leaves_old_bucket:
  "(case run env0
       [AddTopic ''a'' True, Add 0 1 (\<lambda>i. 1), Add 1200000000000 2 (\<lambda>i. 1), Fetch 1260000000000 [''a'']]
       (newTicketStore, heap0) of
      Inl e \<Rightarrow> None
    | Inr (s, h) \<Rightarrow> time_bucket s ''a'' 15) = Some [\<lparr> ref_t = 1, ref_idx = 0 \<rparr>]
   \<and> (15 :: uint64) < 1260000000000 div ticketGroupTime"
  by code_simp

subsection \<open>C10: slots that are already past\<close>

lemma keep_threshold_le:
  assumes "rnd1 \<le> 10"
  shows "f64_add (f64_of_u64 keepTicketConst) (f64_mul (f64_of_u64 keepTicketExp) rnd1)
           \<le> 13200000000000"
proof -
  have c: "f64_of_u64 keepTicketConst = 1200000000000" "f64_of_u64 keepTicketExp = 1200000000000"
    by (simp_all add: f64_eval const_defs)
  have "1200000000000 * rnd1 \<le> of_int 12000000000000" using assms by simp
  then have "f64_round (1200000000000 * rnd1) \<le> of_int 12000000000000"
    by (intro f64_round_le_int) simp_all
  then have "1200000000000 + f64_round (1200000000000 * rnd1) \<le> of_int 13200000000000" by simp
  then have "f64_round (1200000000000 + f64_round (1200000000000 * rnd1)) \<le> of_int 13200000000000"
    by (intro f64_round_le_int) simp_all
  then show ?thesis by (simp add: c f64_add_def f64_mul_def)
qed

lemma wrapped_wait_ge:
  assumes "13200000000000 < unat w"
  shows "13200000000001 \<le> f64_of_u64 w"
proof -
  have "unat w = nat (uint w)" by (rule unat_eq_nat_uint)
  then have "13200000000001 \<le> uint w" using assms by linarith
  then have "(of_int 13200000000001 :: rat) \<le> of_int (uint w)" by (simp only: of_int_le_iff)
  then have "of_int 13200000000001 \<le> f64_round (of_int (uint w))"
    by (intro f64_round_ge_int) simp_all
  then show ?thesis by (simp add: f64_of_u64_def)
qed

lemma expired_wait_not_kept:
  assumes "13200000000000 < unat w"
  shows "\<not> keepTicket rnd w"
proof -
  have "(if 10 < rnd then 10 else rnd) \<le> 10" by simp
  from keep_threshold_le[OF this] wrapped_wait_ge[OF assms] show ?thesis
    unfolding keepTicket_def Let_def by linarith
qed

lemma wrapped_wait:
  fixes rt lt :: uint64
  assumes "rt < lt" and "unat (lt - rt) < 2 ^ 64 - unat keepTicketConst - 10 * unat keepTicketExp"
  shows "13200000000000 < unat (rt - lt)"
proof -
  have le: "unat rt < unat lt" using assms(1) by (simp add: word_less_nat_alt)
  have a: "unat (lt - rt) = unat lt - unat rt" using le by (simp add: unat_sub_if_size)
  have b: "unat (rt - lt) = unat rt + 2 ^ 64 - unat lt" using le by (simp add: unat_sub_if_size word_size)
  have c: "unat keepTicketConst = 1200000000000" "unat keepTicketExp = 1200000000000"
    by (simp_all add: const_defs)
  have "unat lt < 2 ^ 64" using unsigned_less[of lt, where ?'a = nat] by simp
  then show ?thesis using assms(2) le unfolding a b c by simp
qed

text \<open>
  C10. In the loop of \<^verbatim>\<open>add\<close>, for a slot \<open>i\<close> whose \<^verbatim>\<open>regTime[i]\<close> is before
  \<^verbatim>\<open>localTime\<close> by less than \<open>2^64 - (keepTicketConst + 10 * keepTicketExp)\<close>, the
  wrapped difference \<^verbatim>\<open>wait\<close> is above the retention threshold whatever the random
  draw: the slot is put into no bucket and no \<^verbatim>\<open>refCnt\<close> changes. (The theorem is about
  a round of the loop that does not panic; the buckets of all topics and the whole heap
  are as before.)
\<close>

theorem expired_slot_is_not_scheduled:
  assumes "add_slot E localTime a rnd i (s, h) = Inr (s', h')"
    and "regTime (h a) ! i < localTime"
    and "unat (localTime - regTime (h a) ! i) < 2 ^ 64 - unat keepTicketConst - 10 * unat keepTicketExp"
  shows "h' = h \<and> (\<forall>tp g. time_bucket s' tp g = time_bucket s tp g)"
proof -
  have w: "13200000000000 < unat (regTime (h a) ! i - localTime)"
    using assms(2,3) by (rule wrapped_wait)
  note nk = expired_wait_not_kept[OF w, of rnd]
  show ?thesis
  proof (cases "topics s (ticket.topics (h a) ! i)")
    case None
    then show ?thesis using assms(1) by (simp add: add_slot_def)
  next
    case (Some tt)
    show ?thesis
    proof (cases "topicTickets_isInRadius tt (h a)")
      case False
      then show ?thesis using assms(1) Some by (simp add: add_slot_def)
    next
      case True
      from assms(1) Some True obtain tt1 where
        adj: "topicTickets_adjust E h localTime \<lparr> ref_t = a, ref_idx = i \<rparr> (minRadius s) tt = Inr tt1"
        by (cases "topicTickets_adjust E h localTime \<lparr> ref_t = a, ref_idx = i \<rparr> (minRadius s) tt")
           (simp_all add: add_slot_def)
      have t: "time tt1 = time tt" using adjust_frame[OF adj] by simp
      have "s' = s\<lparr> topics := (topics s)(ticket.topics (h a) ! i \<mapsto> tt1) \<rparr> \<and> h' = h"
        using assms(1) Some True adj nk
        by (auto simp: add_slot_def Let_def split: option.splits if_splits)
      then show ?thesis using time_bucket_upd_same_time[OF Some t] by simp
    qed
  qed
qed

lemma example_expired_slot:
  "(case add_slot env0 60000000000 3 1 0 (ticketStore_addTopic env0 ''a'' True newTicketStore, heap0) of
      Inl e \<Rightarrow> False
    | Inr (s', h') \<Rightarrow> (case topics s' ''a'' of None \<Rightarrow> False | Some r \<Rightarrow> converged r))"
  by code_simp

lemma example_expired_times:
  "regTime (heap0 3) ! 0 < 60000000000
   \<and> unat (60000000000 - regTime (heap0 3) ! 0) < 2 ^ 64 - unat keepTicketConst - 10 * unat keepTicketExp"
  by (simp add: heap0_def pongToTicket_def packet_def const_defs)

theorem expired_slot_is_not_scheduled_witness:
  "\<exists>s' h'. add_slot env0 60000000000 3 1 0 (ticketStore_addTopic env0 ''a'' True newTicketStore, heap0)
              = Inr (s', h')
     \<and> regTime (heap0 3) ! 0 < 60000000000
     \<and> unat (60000000000 - regTime (heap0 3) ! 0) < 2 ^ 64 - unat keepTicketConst - 10 * unat keepTicketExp
     \<and> h' = heap0
     \<and> (\<forall>tp g. time_bucket s' tp g = time_bucket (ticketStore_addTopic env0 ''a'' True newTicketStore) tp g)"
proof -
  obtain s' h' where r: "add_slot env0 60000000000 3 1 0
      (ticketStore_addTopic env0 ''a'' True newTicketStore, heap0) = Inr (s', h')"
    using example_expired_slot by (auto split: sum.splits)
  from expired_slot_is_not_scheduled[OF r] example_expired_times r show ?thesis by blast
qed

end
